theory Spec2Isabelle
  imports Complex_Main "HOL-Library.Finite_Map" "HOL-Library.AList" "HOL-Library.Log_Nat"
begin

section \<open>Errors and extended costs\<close>

text \<open>
  Python exceptions are values. \<open>ValueError\<close> carries its message; \<open>KeyError\<close> is what
  a subscript \<open>d[k]\<close> on a missing key raises; \<open>OverflowError\<close> is what \<open>float(n)\<close>
  raises on an int too large for a double.
\<close>

datatype error = ValueError string | KeyError | OverflowError

text \<open>
  The numbers a caller passes as a weight or as an attribute value: a Python \<open>int\<close>,
  which is unbounded, or a \<open>float\<close>. Finite floats are idealised as exact reals:
  the rounding and overflow of float arithmetic and NaN are outside this model.
\<close>

datatype pynum = PInt int | PFloat real

text \<open>The value of a number, as Python's comparisons between ints and floats see it.\<close>

fun py_val :: "pynum \<Rightarrow> real" where
  "py_val (PInt n) = of_int n"
| "py_val (PFloat x) = x"

text \<open>
  \<open>float(n)\<close> on a non-negative int: the nearest double, ties to even. An int of at most
  53 bits is a double; a longer one keeps its 53 leading bits, rounded on the bits that
  are dropped. \<open>floorlog 2 n\<close> is the number of bits of \<open>n\<close>.
\<close>

definition round_to_double :: "nat \<Rightarrow> nat" where
  "round_to_double n =
     (let e = floorlog 2 n - 53
      in if e = 0 then n
         else (let q = n div 2 ^ e; r = n mod 2 ^ e; h = 2 ^ (e - 1)
               in (if r > h \<or> (r = h \<and> odd q) then q + 1 else q) * 2 ^ e))"

fun py_round :: "pynum \<Rightarrow> real" where
  "py_round (PFloat x) = x"
| "py_round (PInt n) =
     (if n < 0 then - real (round_to_double (nat \<bar>n\<bar>))
      else real (round_to_double (nat \<bar>n\<bar>)))"

text \<open>
  \<open>float(x)\<close>: the identity on a float; on an int the nearest double, and
  \<open>OverflowError\<close> when that is 2 ** 1024 or more in magnitude.
\<close>

fun py_float :: "pynum \<Rightarrow> error + real" where
  "py_float (PFloat x) = Inr x"
| "py_float (PInt n) =
     (if round_to_double (nat \<bar>n\<bar>) \<ge> 2 ^ 1024 then Inl OverflowError
      else Inr (py_round (PInt n)))"

text \<open>An int beyond the range of a double: \<open>10 ** 400\<close>.\<close>

definition huge :: int where
  "huge = 10 ^ 400"

text \<open>
  A Python \<open>float\<close> that is either a finite number or \<open>float("inf")\<close>.
\<close>

datatype ext = Fin real | PInf

fun ext_add :: "ext \<Rightarrow> real \<Rightarrow> ext" where
  "ext_add (Fin a) w = Fin (a + w)"
| "ext_add PInf w = PInf"

fun ext_plus :: "ext \<Rightarrow> ext \<Rightarrow> ext" where
  "ext_plus (Fin a) (Fin b) = Fin (a + b)"
| "ext_plus _ _ = PInf"

fun ext_less :: "ext \<Rightarrow> ext \<Rightarrow> bool" where
  "ext_less (Fin a) (Fin b) = (a < b)"
| "ext_less (Fin a) PInf = True"
| "ext_less PInf _ = False"

section \<open>fsm.py: the weighted state graph\<close>

record ('s, 'e) Transition =
  src :: 's
  event :: "'e option"
  dst :: 's
  weight :: real

text \<open>
  \<open>self.states\<close> is a Python set; it is kept as a duplicate-free list, since the
  planner turns it into a list. \<open>self._edges\<close> is a dict of dicts; both levels are
  association lists in insertion order, which is the order \<open>transitions()\<close> yields.
\<close>

record ('s, 'e) FSM =
  states :: "'s list"
  initial :: 's
  fsm_edges :: "(('s \<times> 'e option) \<times> ('s \<times> real) list) list"

definition FSM_init :: "'s list \<Rightarrow> 's \<Rightarrow> error + ('s, 'e) FSM" where
  "FSM_init sts ini =
     (if ini \<notin> set (remdups sts) then Inl (ValueError ''initial state not in states'')
      else Inr \<lparr>states = remdups sts, initial = ini, fsm_edges = []\<rparr>)"

text \<open>
  \<open>add_transition\<close> mutates the machine or raises. The model returns the outcome together
  with the machine as it is afterwards. \<open>setdefault\<close> creates the bucket before
  \<open>float(weight)\<close> is evaluated, so a weight that does not convert leaves the new, empty
  bucket behind.
\<close>

definition add_transition ::
  "('s, 'e) FSM \<Rightarrow> 's \<Rightarrow> 's \<Rightarrow> 'e option \<Rightarrow> pynum \<Rightarrow> (error + unit) \<times> ('s, 'e) FSM" where
  "add_transition fsm s d ev w =
     (if s \<notin> set (states fsm) \<or> d \<notin> set (states fsm)
      then (Inl (ValueError ''src/dst must be existing states''), fsm)
      else
        (let key = (s, ev);
             es1 = (case map_of (fsm_edges fsm) key of
                      None \<Rightarrow> AList.update key [] (fsm_edges fsm)
                    | Some b \<Rightarrow> fsm_edges fsm);
             bucket = (case map_of es1 key of None \<Rightarrow> [] | Some b \<Rightarrow> b)
         in case py_float w of
              Inl x \<Rightarrow> (Inl x, fsm\<lparr>fsm_edges := es1\<rparr>)
            | Inr x \<Rightarrow>
                (Inr (), fsm\<lparr>fsm_edges := AList.update key (AList.update d x bucket) es1\<rparr>)))"

definition neighbors :: "('s, 'e) FSM \<Rightarrow> 's \<Rightarrow> 'e option \<Rightarrow> ('s \<times> real) list" where
  "neighbors fsm s ev = (case map_of (fsm_edges fsm) (s, ev) of None \<Rightarrow> [] | Some b \<Rightarrow> b)"

definition transitions :: "('s, 'e) FSM \<Rightarrow> ('s, 'e) Transition list" where
  "transitions fsm =
     concat (map (\<lambda>(k, dsts).
        map (\<lambda>(d, w). \<lparr>src = fst k, event = snd k, dst = d, weight = w\<rparr>) dsts) (fsm_edges fsm))"

text \<open>
  The representation invariant of a machine built by \<open>FSM_init\<close> and \<open>add_transition\<close>:
  the dicts have no duplicate keys, and every stored edge joins registered states.
\<close>

definition fsm_inv :: "('s, 'e) FSM \<Rightarrow> bool" where
  "fsm_inv fsm \<longleftrightarrow>
     distinct (states fsm) \<and> initial fsm \<in> set (states fsm) \<and>
     distinct (map fst (fsm_edges fsm)) \<and>
     (\<forall>(k, b) \<in> set (fsm_edges fsm).
        fst k \<in> set (states fsm) \<and> distinct (map fst b) \<and>
        (\<forall>(d, w) \<in> set b. d \<in> set (states fsm)))"


section \<open>graph.py: Bellman-Ford and the negative-cycle detector\<close>

text \<open>
  A node is any hashable Python value, and \<open>None\<close> is one of them. The predecessor dict
  is a \<open>Dict[Node, Optional[Node]]\<close>: a stored \<open>None\<close> means "no predecessor", so the
  node \<open>None\<close>, stored as a predecessor, reads as no predecessor.
\<close>

datatype 'a py = PyNone | Py 'a

fun node_opt :: "'a py \<Rightarrow> 'a py option" where
  "node_opt PyNone = None"
| "node_opt (Py a) = Some (Py a)"

record 'n Edge =
  e_u :: 'n
  e_v :: 'n
  e_w :: real

text \<open>\<open>d.get(k, float("inf"))\<close> on a distance dict.\<close>

definition dget :: "('n, ext) fmap \<Rightarrow> 'n \<Rightarrow> ext" where
  "dget distm k = (case fmlookup distm k of None \<Rightarrow> PInf | Some d \<Rightarrow> d)"

text \<open>
  One execution of the body of the inner loop of \<open>bellman_ford\<close>, on the triple
  (dist, pred, changed). The subscripts \<open>dist[e.u]\<close> and \<open>dist[e.v]\<close> raise on a
  missing key.
\<close>

type_synonym 'n bf_state = "('n py, ext) fmap \<times> ('n py, 'n py option) fmap \<times> bool"

definition relax_edge :: "'n py Edge \<Rightarrow> 'n bf_state \<Rightarrow> error + 'n bf_state" where
  "relax_edge e st =
     (case st of (distm, predm, changed) \<Rightarrow>
        (case fmlookup distm (e_u e) of
           None \<Rightarrow> Inl KeyError
         | Some du \<Rightarrow>
             (case fmlookup distm (e_v e) of
                None \<Rightarrow> Inl KeyError
              | Some dv \<Rightarrow>
                  if ext_less (ext_add du (e_w e)) dv
                  then Inr (fmupd (e_v e) (ext_add du (e_w e)) distm,
                            fmupd (e_v e) (node_opt (e_u e)) predm, True)
                  else Inr st)))"

fun relax_pass :: "'n py Edge list \<Rightarrow> 'n bf_state \<Rightarrow> error + 'n bf_state" where
  "relax_pass [] st = Inr st"
| "relax_pass (e # es) st =
     (case relax_edge e st of Inl x \<Rightarrow> Inl x | Inr st' \<Rightarrow> relax_pass es st')"

text \<open>The outer loop: at most \<open>k\<close> passes, leaving early after a pass that changed nothing.\<close>

fun bf_loop ::
  "nat \<Rightarrow> 'n py Edge list \<Rightarrow> ('n py, ext) fmap \<times> ('n py, 'n py option) fmap
     \<Rightarrow> error + ('n py, ext) fmap \<times> ('n py, 'n py option) fmap" where
  "bf_loop 0 es dp = Inr dp"
| "bf_loop (Suc k) es dp =
     (case relax_pass es (fst dp, snd dp, False) of
        Inl x \<Rightarrow> Inl x
      | Inr (dist', pred', changed) \<Rightarrow>
          if \<not> changed then Inr (dist', pred') else bf_loop k es (dist', pred'))"

text \<open>The final loop: returns at the first edge that still relaxes.\<close>

fun bf_check :: "'n Edge list \<Rightarrow> ('n, ext) fmap \<Rightarrow> error + bool" where
  "bf_check [] distm = Inr False"
| "bf_check (e # es) distm =
     (case fmlookup distm (e_u e) of
        None \<Rightarrow> Inl KeyError
      | Some du \<Rightarrow>
          (case fmlookup distm (e_v e) of
             None \<Rightarrow> Inl KeyError
           | Some dv \<Rightarrow>
               if ext_less (ext_add du (e_w e)) dv then Inr True else bf_check es distm))"

definition bellman_ford ::
  "'n py list \<Rightarrow> 'n py Edge list \<Rightarrow> 'n py
     \<Rightarrow> error + ('n py, ext) fmap \<times> ('n py, 'n py option) fmap \<times> bool" where
  "bellman_ford nodes es source =
     (let dist0 = fmupd source (Fin 0) (fmap_of_list (map (\<lambda>n. (n, PInf)) nodes));
          pred0 = fmap_of_list (map (\<lambda>n. (n, None)) nodes)
      in case bf_loop (length nodes - 1) es (dist0, pred0) of
           Inl x \<Rightarrow> Inl x
         | Inr (distm, predm) \<Rightarrow>
             (case bf_check es distm of
                Inl x \<Rightarrow> Inl x
              | Inr neg \<Rightarrow> Inr (distm, predm, neg)))"

text \<open>
  \<open>detect_any_negative_cycle\<close> adds edges from \<open>super_source = object()\<close>, a value equal
  to no node, so its dict is keyed by nodes or the super source. It reads the dict with
  \<open>dist.get(k, inf)\<close>, which never raises.
\<close>

datatype 'n dnode = Node 'n | SuperSource

definition detect_relax :: "'m Edge \<Rightarrow> ('m, ext) fmap \<Rightarrow> ('m, ext) fmap" where
  "detect_relax e distm =
     (if ext_less (ext_add (dget distm (e_u e)) (e_w e)) (dget distm (e_v e))
      then fmupd (e_v e) (ext_add (dget distm (e_u e)) (e_w e)) distm
      else distm)"

fun detect_loop :: "nat \<Rightarrow> 'm Edge list \<Rightarrow> ('m, ext) fmap \<Rightarrow> ('m, ext) fmap" where
  "detect_loop 0 es distm = distm"
| "detect_loop (Suc k) es distm = detect_loop k es (fold detect_relax es distm)"

fun detect_check :: "'m Edge list \<Rightarrow> ('m, ext) fmap \<Rightarrow> bool" where
  "detect_check [] distm = False"
| "detect_check (e # es) distm =
     (if ext_less (ext_add (dget distm (e_u e)) (e_w e)) (dget distm (e_v e)) then True
      else detect_check es distm)"

definition lift_edge :: "'n Edge \<Rightarrow> 'n dnode Edge" where
  "lift_edge e = \<lparr>e_u = Node (e_u e), e_v = Node (e_v e), e_w = e_w e\<rparr>"

definition detect_any_negative_cycle :: "'n list \<Rightarrow> 'n Edge list \<Rightarrow> bool" where
  "detect_any_negative_cycle nodes es =
     (let distm = fmap_of_list (map (\<lambda>n. (Node n, Fin 0)) nodes);
          edges_list = map lift_edge es
                       @ map (\<lambda>n. \<lparr>e_u = SuperSource, e_v = Node n, e_w = 0\<rparr>) nodes
      in detect_check edges_list (detect_loop (length nodes - 1) edges_list distm))"

section \<open>planner.py: shortest paths and the A-B-C-A cycle\<close>

record 's PlanResult =
  path :: "'s list"
  cost :: ext
  ok :: bool
  reason :: string

definition edges_from_fsm :: "('s, 'e) FSM \<Rightarrow> 's Edge list" where
  "edges_from_fsm fsm =
     map (\<lambda>t. \<lparr>e_u = src t, e_v = dst t, e_w = weight t\<rparr>) (transitions fsm)"

text \<open>
  \<open>pred.get(cur)\<close>: \<open>None\<close> for a missing key and for a stored \<open>None\<close>, be it the
  initial one or the node \<open>None\<close>.
\<close>

definition pred_get :: "('s, 's option) fmap \<Rightarrow> 's \<Rightarrow> 's option" where
  "pred_get predm c = (case fmlookup predm c of None \<Rightarrow> None | Some p \<Rightarrow> p)"

text \<open>
  The reconstruction loop of \<open>_shortest_path\<close>, on \<open>cur\<close> read as an optional node. The
  result \<open>None\<close> is the early return on a revisited node; \<open>Some p\<close> is the list built
  when the loop ends (not yet reversed).
\<close>

function reconstruct ::
  "('s, 's option) fmap \<Rightarrow> 's option \<Rightarrow> 's set \<Rightarrow> 's list \<Rightarrow> 's list option" where
  "reconstruct predm cur visited pth =
     (case cur of
        None \<Rightarrow> Some pth
      | Some c \<Rightarrow>
          if c \<in> visited then None
          else reconstruct predm (pred_get predm c) (insert c visited) (pth @ [c]))"
  by pat_completeness auto
termination
proof (relation "measure (\<lambda>(predm, cur, visited, pth).
          case cur of None \<Rightarrow> 0 | Some c \<Rightarrow> Suc (card (fmdom' predm - visited)))")
  show "wf (measure (\<lambda>(predm, cur, visited, pth).
          case cur of None \<Rightarrow> 0 | Some c \<Rightarrow> Suc (card (fmdom' predm - visited))))"
    by simp
next
  fix predm :: "('s, 's option) fmap" and cur :: "'s option" and visited :: "'s set"
    and pth :: "'s list" and c :: 's
  assume cur: "cur = Some c" and nv: "c \<notin> visited"
  show "((predm, pred_get predm c, insert c visited, pth @ [c]), (predm, cur, visited, pth))
          \<in> measure (\<lambda>(predm, cur, visited, pth).
              case cur of None \<Rightarrow> 0 | Some c \<Rightarrow> Suc (card (fmdom' predm - visited)))"
  proof (cases "pred_get predm c")
    case None
    then show ?thesis using cur by simp
  next
    case (Some p)
    then have "c \<in> fmdom' predm"
      by (auto simp: pred_get_def fmdom'I split: option.splits)
    then have "card (fmdom' predm - insert c visited) < card (fmdom' predm - visited)"
      using nv by (intro psubset_card_mono) auto
    then show ?thesis using cur Some by simp
  qed
qed

definition shortest_path ::
  "'s py list \<Rightarrow> 's py Edge list \<Rightarrow> 's py \<Rightarrow> 's py
     \<Rightarrow> error + 's py list \<times> ext \<times> string" where
  "shortest_path nodes es s t =
     (case bellman_ford nodes es s of
        Inl x \<Rightarrow> Inl x
      | Inr (distm, predm, has_neg_cycle) \<Rightarrow>
          if has_neg_cycle then Inr ([], PInf, ''negative cycle detected'')
          else if dget distm t = PInf then Inr ([], PInf, ''unreachable'')
          else
            (case reconstruct predm (node_opt t) {} [] of
               None \<Rightarrow> Inr ([], PInf, ''path reconstruction cycle detected'')
             | Some p \<Rightarrow>
                 if rev p \<noteq> [] \<and> hd (rev p) \<noteq> s
                 then Inr ([], PInf, ''path reconstruction failed'')
                 else
                   (case fmlookup distm t of
                      None \<Rightarrow> Inl KeyError
                    | Some d \<Rightarrow> Inr (rev p, d, ''''))))"

definition plan_fail :: "string \<Rightarrow> 's PlanResult" where
  "plan_fail r = \<lparr>path = [], cost = PInf, ok = False, reason = r\<rparr>"

definition plan_cycle_ABC ::
  "('s py, 'e) FSM \<Rightarrow> 's py \<Rightarrow> 's py \<Rightarrow> 's py \<Rightarrow> bool \<Rightarrow> error + 's py PlanResult" where
  "plan_cycle_ABC fsm A B C forbid_negative_edges =
     (if A \<notin> set (states fsm) \<or> B \<notin> set (states fsm) \<or> C \<notin> set (states fsm)
      then Inr (plan_fail ''A/B/C not in FSM states'')
      else
        (let es0 = edges_from_fsm fsm;
             nodes = states fsm;
             es = (if forbid_negative_edges then filter (\<lambda>e. e_w e \<ge> 0) es0 else es0)
         in if detect_any_negative_cycle nodes es
            then Inr (plan_fail ''negative cycle exists in graph'')
            else
              (case shortest_path nodes es A B of
                 Inl x \<Rightarrow> Inl x
               | Inr (p1, c1, r1) \<Rightarrow>
                   if p1 = [] then Inr (plan_fail (''A->B planning failed: '' @ r1))
                   else
                     (case shortest_path nodes es B C of
                        Inl x \<Rightarrow> Inl x
                      | Inr (p2, c2, r2) \<Rightarrow>
                          if p2 = [] then Inr (plan_fail (''B->C planning failed: '' @ r2))
                          else
                            (case shortest_path nodes es C A of
                               Inl x \<Rightarrow> Inl x
                             | Inr (p3, c3, r3) \<Rightarrow>
                                 if p3 = []
                                 then Inr (plan_fail (''C->A planning failed: '' @ r3))
                                 else Inr \<lparr>path = p1 @ drop 1 p2 @ drop 1 p3,
                                           cost = ext_plus (ext_plus c1 c2) c3,
                                           ok = True, reason = ''ok''\<rparr>)))))"


section \<open>spec.py: the cost aggregator\<close>

definition C_M_PER_S :: real where
  "C_M_PER_S = 299792458"

record AggregationPolicy =
  energy_weight :: real
  earth_time_weight :: real
  crew_time_weight :: real
  risk_weight :: real
  allow_negative_edges :: bool
  strict_invariants :: bool
  energy_scale :: real
  infer_velocity_from_distance_and_duration :: bool
  mode :: "string option"

definition default_policy :: AggregationPolicy where
  "default_policy =
     \<lparr>energy_weight = 1, earth_time_weight = 0.1, crew_time_weight = 0.2, risk_weight = 2,
      allow_negative_edges = True, strict_invariants = True, energy_scale = 10 ^ 9,
      infer_velocity_from_distance_and_duration = True, mode = None\<rparr>"

text \<open>The returned breakdown dict; its two nested dicts are flattened into fields.\<close>

record breakdown =
  bd_energy_j :: real
  bd_distance_m :: real
  bd_velocity_fraction_c :: real
  bd_gamma :: real
  bd_duration_s :: real
  bd_crew_time_s :: real
  bd_risk_prob :: real
  bd_risk_penalty :: real
  bd_credits :: real
  eff_energy :: real
  eff_earth_time :: real
  eff_crew_time :: real
  eff_risk :: real
  energy_term :: real
  time_term :: real
  risk_term :: real
  warnings :: "string list"

definition gamma :: "real \<Rightarrow> error + real" where
  "gamma beta =
     (if beta < 0 \<or> beta \<ge> 1 then Inl (ValueError ''velocity_fraction_c must be in [0,1)'')
      else Inr (1 / sqrt (1 - beta * beta)))"

text \<open>
  An attribute dict maps names to numbers. \<open>float(attrs.get(k, 0.0))\<close> converts the
  value, or the default, and raises when the value does not convert.
\<close>

definition attr_float :: "(string \<rightharpoonup> pynum) \<Rightarrow> string \<Rightarrow> error + real" where
  "attr_float attrs k = (case attrs k of None \<Rightarrow> Inr 0 | Some v \<Rightarrow> py_float v)"

text \<open>\<open>str.lower()\<close> on the ASCII letters.\<close>

definition lower_char :: "char \<Rightarrow> char" where
  "lower_char c =
     (if (65::nat) \<le> of_char c \<and> of_char c \<le> (90::nat)
      then char_of (of_char c + (32::nat)) else c)"

definition lower :: "string \<Rightarrow> string" where
  "lower s = map lower_char s"

text \<open>
  The last part of \<open>aggregate_cost_with_breakdown\<close>, from the risk penalty on, on the
  numbers read and resolved before it. Nothing in it raises.
\<close>

definition cost_and_breakdown ::
  "AggregationPolicy \<Rightarrow> real \<Rightarrow> real \<Rightarrow> real \<Rightarrow> real \<Rightarrow> real \<Rightarrow> real \<Rightarrow> real \<Rightarrow> real
     \<Rightarrow> real \<times> breakdown" where
  "cost_and_breakdown policy energy_j distance_m risk_prob credits duration_s beta g crew_time_s =
    (let risk_penalty = - ln (max (1 / 10 ^ 12) (1 - min (max risk_prob 0) 0.999999));
         e_w0 = energy_weight policy;
         real_world =
           (lower (case mode policy of None \<Rightarrow> [] | Some m \<Rightarrow> m) = ''real_world'');
         days = (if duration_s > 0 then duration_s / 86400 else 0);
         et_w = (if real_world
                 then earth_time_weight policy * (1 + min days 10 * 0.05)
                 else earth_time_weight policy);
         ct_w = (if real_world
                 then crew_time_weight policy * (1 + min days 10 * 0.02)
                 else crew_time_weight policy);
         r_w = (if real_world
                then risk_weight policy * (1 + min (max risk_prob 0) 0.99 * 2)
                else risk_weight policy);
         energy_term0 = energy_j / max 1 (energy_scale policy);
         time_term0 = et_w * duration_s + ct_w * crew_time_s;
         risk_term0 = r_w * risk_penalty;
         cost0 = energy_weight policy * energy_term0 + time_term0 + risk_term0 - credits;
         cost1 = (if \<not> allow_negative_edges policy then max 0 cost0 else cost0);
         warnings0 =
           (if distance_m > 0 \<and> duration_s > 0 \<and> beta > 0
               \<and> duration_s + 1 / 10 ^ 9 < distance_m / (beta * C_M_PER_S)
            then [''duration below kinematic bound distance/velocity''] else [])
           @ (if beta \<ge> 0.9 then [''high relativistic speed (beta>=0.9)''] else [])
           @ (if distance_m > 0 \<and> duration_s > 0 \<and> distance_m / duration_s > C_M_PER_S
              then [''implied superluminal average speed from distance/duration'']
              else [])
           @ (if risk_prob \<ge> 0.2 then [''high mission risk (risk_prob>=0.2)''] else [])
           @ (if crew_time_s > duration_s + 1 / 10 ^ 9
              then [''crew_time exceeds earth-frame duration (unexpected)'']
              else [])
     in (cost1,
         \<lparr>bd_energy_j = energy_j, bd_distance_m = distance_m,
          bd_velocity_fraction_c = beta, bd_gamma = g,
          bd_duration_s = duration_s, bd_crew_time_s = crew_time_s,
          bd_risk_prob = risk_prob, bd_risk_penalty = risk_penalty,
          bd_credits = credits,
          eff_energy = e_w0, eff_earth_time = et_w, eff_crew_time = ct_w,
          eff_risk = r_w,
          energy_term = energy_term0, time_term = time_term0,
          risk_term = risk_term0, warnings = warnings0\<rparr>))"

text \<open>
  The duration: the converted \<open>duration_s\<close> if the key is present; else the difference
  of the two timestamps floored at zero, and zero when a timestamp is missing or when
  converting one raises (the \<open>try\<close> swallows it).
\<close>

definition read_duration :: "(string \<rightharpoonup> pynum) \<Rightarrow> error + real" where
  "read_duration attrs =
     (if ''duration_s'' \<in> dom attrs then attr_float attrs ''duration_s''
      else (case attrs ''earth_departure_epoch_s'' of
              None \<Rightarrow> Inr 0
            | Some dep \<Rightarrow>
                (case attrs ''earth_arrival_epoch_s'' of
                   None \<Rightarrow> Inr 0
                 | Some arr \<Rightarrow>
                     (case py_float arr of
                        Inl x \<Rightarrow> Inr 0
                      | Inr a \<Rightarrow>
                          (case py_float dep of
                             Inl x \<Rightarrow> Inr 0
                           | Inr d \<Rightarrow> Inr (max 0 (a - d)))))))"

text \<open>
  The strict kinematic check: \<open>beta\<close> is still the raw attribute, compared as a number,
  and \<open>float(beta)\<close> may raise. The result tells whether the bound is violated.
\<close>

definition kinematic_check ::
  "pynum option \<Rightarrow> real \<Rightarrow> real \<Rightarrow> error + bool" where
  "kinematic_check beta0 distance_m duration_s =
     (if distance_m > 0 \<and> duration_s > 0
      then (case beta0 of
              None \<Rightarrow> Inr False
            | Some b \<Rightarrow>
                if py_val b > 0
                then (case py_float b of
                        Inl x \<Rightarrow> Inl x
                      | Inr bf \<Rightarrow>
                          Inr (bf * C_M_PER_S > 0
                               \<and> duration_s + 1 / 10 ^ 9 < distance_m / (bf * C_M_PER_S)))
                else Inr False)
      else Inr False)"

text \<open>
  The velocity fraction: inferred when the attribute is absent and the policy asks for
  it, else \<open>float(beta or 0.0)\<close>, where a missing or zero \<open>beta\<close> gives 0.0.
\<close>

definition read_beta ::
  "pynum option \<Rightarrow> AggregationPolicy \<Rightarrow> real \<Rightarrow> real \<Rightarrow> error + real" where
  "read_beta beta0 policy distance_m duration_s =
     (if beta0 = None \<and> infer_velocity_from_distance_and_duration policy
         \<and> distance_m > 0 \<and> duration_s > 0
      then Inr (max 0 (min (distance_m / duration_s / C_M_PER_S) 0.999999))
      else (case beta0 of
              None \<Rightarrow> Inr 0
            | Some b \<Rightarrow> if py_val b = 0 then Inr 0 else py_float b))"

text \<open>
  Lines 68 to 103, on the numbers converted before them: the strict checks, the velocity
  fraction, the relativistic factor and the crew time, each raise being an \<open>Inl\<close>.
  \<open>beta0\<close> and \<open>crew0\<close> are the raw attributes \<open>velocity_fraction_c\<close> and
  \<open>crew_time_s\<close>.
\<close>

definition checked_cost ::
  "AggregationPolicy \<Rightarrow> pynum option \<Rightarrow> pynum option
     \<Rightarrow> real \<Rightarrow> real \<Rightarrow> real \<Rightarrow> real \<Rightarrow> real \<Rightarrow> real \<Rightarrow> error + real \<times> breakdown" where
  "checked_cost policy beta0 crew0 energy_j distance_m mass_kg risk_prob duration_s credits =
    (if strict_invariants policy
        \<and> (energy_j < 0 \<or> distance_m < 0 \<or> mass_kg < 0 \<or> duration_s < 0)
     then Inl (ValueError ''energy_j, distance_m, mass_kg, duration_s must be >= 0'')
     else if strict_invariants policy \<and> \<not> (0 \<le> risk_prob \<and> risk_prob < 1)
     then Inl (ValueError ''risk_prob must be in [0,1)'')
     else
      (case (if strict_invariants policy
             then kinematic_check beta0 distance_m duration_s
             else Inr False) of
         Inl x \<Rightarrow> Inl x
       | Inr violated \<Rightarrow>
           if violated
           then Inl (ValueError
                  ''duration_s violates kinematic lower bound distance/velocity'')
           else
            (case read_beta beta0 policy distance_m duration_s of
               Inl x \<Rightarrow> Inl x
             | Inr beta \<Rightarrow>
                 if strict_invariants policy \<and> \<not> (0 \<le> beta \<and> beta < 1)
                 then Inl (ValueError ''velocity_fraction_c must be in [0,1)'')
                 else
                  (case (if beta > 0 then gamma beta else Inr 1) of
                     Inl x \<Rightarrow> Inl x
                   | Inr g \<Rightarrow>
                       (case (case crew0 of
                                None \<Rightarrow> Inr (if duration_s > 0 then duration_s / g else 0)
                              | Some c \<Rightarrow> py_float c) of
                          Inl x \<Rightarrow> Inl x
                        | Inr crew_time_s \<Rightarrow>
                            Inr (cost_and_breakdown policy energy_j distance_m risk_prob
                                   credits duration_s beta g crew_time_s))))))"

text \<open>
  The function itself, in the order of the source: the conversions of lines 47 to 66,
  each of which may raise, then the rest.
\<close>

definition aggregate_cost_with_breakdown ::
  "(string \<rightharpoonup> pynum) \<Rightarrow> AggregationPolicy \<Rightarrow> error + real \<times> breakdown" where
  "aggregate_cost_with_breakdown attrs policy =
    (case attr_float attrs ''energy_j'' of Inl x \<Rightarrow> Inl x | Inr energy_j \<Rightarrow>
    (case attr_float attrs ''distance_m'' of Inl x \<Rightarrow> Inl x | Inr distance_m \<Rightarrow>
    (case attr_float attrs ''mass_kg'' of Inl x \<Rightarrow> Inl x | Inr mass_kg \<Rightarrow>
    (case attr_float attrs ''risk_prob'' of Inl x \<Rightarrow> Inl x | Inr risk_prob \<Rightarrow>
    (case read_duration attrs of Inl x \<Rightarrow> Inl x | Inr duration_s \<Rightarrow>
    (case attr_float attrs ''credits'' of Inl x \<Rightarrow> Inl x | Inr credits \<Rightarrow>
       checked_cost policy (attrs ''velocity_fraction_c'') (attrs ''crew_time_s'')
         energy_j distance_m mass_kg risk_prob duration_s credits))))))"

definition aggregate_cost :: "(string \<rightharpoonup> pynum) \<Rightarrow> AggregationPolicy \<Rightarrow> error + real" where
  "aggregate_cost attrs policy =
     (case aggregate_cost_with_breakdown attrs policy of
        Inl x \<Rightarrow> Inl x
      | Inr (c, bd) \<Rightarrow> Inr c)"


section \<open>Specification vocabulary\<close>

text \<open>
  A walk from \<open>a\<close> to \<open>b\<close> is a chain of edges of the graph; a negative cycle is a
  closed walk whose weights sum to a negative value (a simple cycle is one of them).
\<close>

fun walk :: "'n Edge list \<Rightarrow> 'n \<Rightarrow> 'n Edge list \<Rightarrow> 'n \<Rightarrow> bool" where
  "walk E a [] b = (a = b)"
| "walk E a (e # p) b = (e \<in> set E \<and> e_u e = a \<and> walk E (e_v e) p b)"

definition cost_of :: "'n Edge list \<Rightarrow> real" where
  "cost_of p = sum_list (map e_w p)"

definition negative_cycle :: "'n Edge list \<Rightarrow> bool" where
  "negative_cycle E \<longleftrightarrow> (\<exists>a p. walk E a p a \<and> cost_of p < 0)"

definition edges_within :: "'n list \<Rightarrow> 'n Edge list \<Rightarrow> bool" where
  "edges_within nodes es \<longleftrightarrow> (\<forall>e \<in> set es. e_u e \<in> set nodes \<and> e_v e \<in> set nodes)"

text \<open>Python's \<open>s in r\<close> on strings.\<close>

fun starts_with :: "string \<Rightarrow> string \<Rightarrow> bool" where
  "starts_with r [] = True"
| "starts_with [] (c # s) = False"
| "starts_with (a # r) (c # s) = (a = c \<and> starts_with r s)"

fun contains :: "string \<Rightarrow> string \<Rightarrow> bool" where
  "contains [] s = (s = [])"
| "contains (a # r) s = (starts_with (a # r) s \<or> contains r s)"

subsection \<open>Reference: Dijkstra's algorithm\<close>

text \<open>
  The textbook algorithm for non-negative weights, on a total distance function: start
  with 0 at the source and infinity elsewhere; repeatedly take an unvisited node of least
  tentative distance out of the queue and relax its outgoing edges; stop when the queue is
  empty.
\<close>

fun pick_min :: "('n \<Rightarrow> ext) \<Rightarrow> 'n \<Rightarrow> 'n list \<Rightarrow> 'n" where
  "pick_min d x [] = x"
| "pick_min d x (y # ys) = pick_min d (if ext_less (d y) (d x) then y else x) ys"

definition relax_out :: "'n Edge list \<Rightarrow> 'n \<Rightarrow> ('n \<Rightarrow> ext) \<Rightarrow> ('n \<Rightarrow> ext)" where
  "relax_out es x d =
     fold (\<lambda>e d'. if e_u e = x \<and> ext_less (ext_add (d x) (e_w e)) (d' (e_v e))
                   then d'(e_v e := ext_add (d x) (e_w e)) else d') es d"

function dijkstra_loop :: "'n Edge list \<Rightarrow> 'n list \<Rightarrow> ('n \<Rightarrow> ext) \<Rightarrow> ('n \<Rightarrow> ext)" where
  "dijkstra_loop es [] d = d"
| "dijkstra_loop es (q # qs) d =
     dijkstra_loop es (removeAll (pick_min d q qs) (q # qs)) (relax_out es (pick_min d q qs) d)"
  by pat_completeness auto
termination
proof (relation "measure (\<lambda>(es, qs, d). length qs)")
  show "wf (measure (\<lambda>(es, qs, d). length qs))" by simp
next
  fix es :: "'n Edge list" and q :: 'n and qs :: "'n list" and d :: "'n \<Rightarrow> ext"
  have mem: "pick_min d x ys \<in> set (x # ys)" for x ys
    by (induction ys arbitrary: x) auto
  have "length (removeAll (pick_min d q qs) (q # qs)) < length (q # qs)"
    using mem [of q qs] by (intro length_removeAll_less) simp
  then show "((es, removeAll (pick_min d q qs) (q # qs), relax_out es (pick_min d q qs) d),
              (es, q # qs, d)) \<in> measure (\<lambda>(es, qs, d). length qs)"
    by simp
qed

definition dijkstra :: "'n list \<Rightarrow> 'n Edge list \<Rightarrow> 'n \<Rightarrow> ('n \<Rightarrow> ext)" where
  "dijkstra nodes es source =
     dijkstra_loop es (remdups nodes) ((\<lambda>n. PInf)(source := Fin 0))"

text \<open>The test scripts of the repository build their machines like this.\<close>

fun add_all :: "('s, 'e) FSM \<Rightarrow> ('s \<times> 's \<times> pynum) list \<Rightarrow> error + ('s, 'e) FSM" where
  "add_all fsm [] = Inr fsm"
| "add_all fsm ((s, d, w) # ts) =
     (case add_transition fsm s d None w of
        (Inl x, fsm') \<Rightarrow> Inl x
      | (Inr y, fsm') \<Rightarrow> add_all fsm' ts)"

definition build_fsm ::
  "'s list \<Rightarrow> 's \<Rightarrow> ('s \<times> 's \<times> pynum) list \<Rightarrow> error + ('s, 'e) FSM" where
  "build_fsm sts ini ts =
     (case FSM_init sts ini of Inl x \<Rightarrow> Inl x | Inr f \<Rightarrow> add_all f ts)"

definition scenario1 :: "error + (string py, unit) FSM" where
  "scenario1 =
     build_fsm [Py ''A'', Py ''B'', Py ''C''] (Py ''A'')
       [(Py ''A'', Py ''B'', PInt 1), (Py ''B'', Py ''C'', PInt 2), (Py ''C'', Py ''A'', PInt 3)]"


subsection \<open>The cost aggregator in the specification's words\<close>

text \<open>
  The number an attribute stands for: the supplied value as a float, zero when the
  attribute is absent. Every attribute value converts when none of them is an int beyond
  the range of a double.
\<close>

definition attr_num :: "(string \<rightharpoonup> pynum) \<Rightarrow> string \<Rightarrow> real" where
  "attr_num attrs k = (case attrs k of None \<Rightarrow> 0 | Some v \<Rightarrow> py_round v)"

definition convertible :: "(string \<rightharpoonup> pynum) \<Rightarrow> bool" where
  "convertible attrs \<longleftrightarrow> (\<forall>k v. attrs k = Some v \<longrightarrow> py_float v = Inr (py_round v))"

text \<open>
  The resolved duration: the explicit value if present, else the arrival time minus the
  departure time, floored at zero, if both are present (and convert), else zero.
\<close>

definition resolved_duration :: "(string \<rightharpoonup> pynum) \<Rightarrow> real" where
  "resolved_duration attrs =
     (case attrs ''duration_s'' of
        Some d \<Rightarrow> py_round d
      | None \<Rightarrow>
          (case (attrs ''earth_departure_epoch_s'', attrs ''earth_arrival_epoch_s'') of
             (Some dep, Some arr) \<Rightarrow>
               (case (py_float arr, py_float dep) of
                  (Inr a, Inr d) \<Rightarrow> max 0 (a - d)
                | _ \<Rightarrow> 0)
           | _ \<Rightarrow> 0))"



definition is_real_world :: "AggregationPolicy \<Rightarrow> bool" where
  "is_real_world policy \<longleftrightarrow> (\<exists>m. mode policy = Some m \<and> lower m = ''real_world'')"

text \<open>The scalar cost formula, on the ten numbers it combines.\<close>

definition scalar_cost ::
  "real \<Rightarrow> real \<Rightarrow> real \<Rightarrow> real \<Rightarrow> real \<Rightarrow> real \<Rightarrow> real \<Rightarrow> real \<Rightarrow> real \<Rightarrow> real \<Rightarrow> real" where
  "scalar_cost e_wt energy scale et_wt duration ct_wt crew r_wt penalty credits =
     e_wt * (energy / max 1 scale) + et_wt * duration + ct_wt * crew + r_wt * penalty
       - credits"

text \<open>The machines a client can build: by the constructor, then by \<open>add_transition\<close>.\<close>

inductive built :: "('s, 'e) FSM \<Rightarrow> bool" where
  built_init: "FSM_init sts ini = Inr f \<Longrightarrow> built f"
| built_add: "built f \<Longrightarrow> built (snd (add_transition f s d ev w))"

subsection \<open>Vocabulary of the graph proofs\<close>

text \<open>
  The proofs read a distance dict as a total function (\<open>dget\<close>) and follow the
  relaxation of one edge on such functions.
\<close>

definition ext_le :: "ext \<Rightarrow> ext \<Rightarrow> bool" where
  "ext_le a b \<longleftrightarrow> \<not> ext_less b a"

definition relaxable :: "'n Edge \<Rightarrow> ('n \<Rightarrow> ext) \<Rightarrow> bool" where
  "relaxable e D \<longleftrightarrow> ext_less (ext_add (D (e_u e)) (e_w e)) (D (e_v e))"

definition arelax :: "'n Edge \<Rightarrow> ('n \<Rightarrow> ext) \<Rightarrow> ('n \<Rightarrow> ext)" where
  "arelax e D = (if relaxable e D then D(e_v e := ext_add (D (e_u e)) (e_w e)) else D)"

text \<open>No edge of the list can be relaxed any more.\<close>

definition feasible :: "'n Edge list \<Rightarrow> ('n \<Rightarrow> ext) \<Rightarrow> bool" where
  "feasible E D \<longleftrightarrow> (\<forall>e \<in> set E. \<not> relaxable e D)"

text \<open>
  A value \<open>c\<close> is reached at \<open>v\<close> from the initial distances \<open>D0\<close> when some walk ends
  in \<open>v\<close> whose start has a finite initial distance and whose cost added to it gives \<open>c\<close>.
\<close>

definition reaches :: "('n \<Rightarrow> ext) \<Rightarrow> 'n Edge list \<Rightarrow> 'n \<Rightarrow> real \<Rightarrow> bool" where
  "reaches D0 E b c \<longleftrightarrow> (\<exists>a x p. D0 a = Fin x \<and> walk E a p b \<and> c = x + cost_of p)"

definition sound :: "('n \<Rightarrow> ext) \<Rightarrow> 'n Edge list \<Rightarrow> ('n \<Rightarrow> ext) \<Rightarrow> bool" where
  "sound D0 E D \<longleftrightarrow> (\<forall>b c. D b = Fin c \<longrightarrow> reaches D0 E b c)"

definition covers :: "('n \<Rightarrow> ext) \<Rightarrow> 'n Edge list \<Rightarrow> nat \<Rightarrow> ('n \<Rightarrow> ext) \<Rightarrow> bool" where
  "covers D0 E k D \<longleftrightarrow>
     (\<forall>a x p b. D0 a = Fin x \<and> walk E a p b \<and> length p \<le> k
        \<longrightarrow> ext_le (D b) (Fin (x + cost_of p)))"

text \<open>The nodes met when following the predecessor dict from a node.\<close>

inductive anc :: "('n, 'n option) fmap \<Rightarrow> 'n \<Rightarrow> 'n \<Rightarrow> bool" for predm where
  anc_refl: "anc predm a a"
| anc_step: "anc predm a b \<Longrightarrow> pred_get predm b = Some c \<Longrightarrow> anc predm a c"

definition acyclic_pred :: "('n, 'n option) fmap \<Rightarrow> bool" where
  "acyclic_pred predm \<longleftrightarrow> (\<forall>a b. pred_get predm a = Some b \<longrightarrow> \<not> anc predm b a)"

text \<open>The initial distances of \<open>bellman_ford\<close>, and the invariant of its loops.\<close>

definition src_init :: "'n \<Rightarrow> 'n \<Rightarrow> ext" where
  "src_init s = (\<lambda>n. PInf)(s := Fin 0)"

definition bf_inv ::
  "'n Edge list \<Rightarrow> 'n \<Rightarrow> ('n, ext) fmap \<Rightarrow> ('n, 'n option) fmap \<Rightarrow> bool" where
  "bf_inv E s distm predm \<longleftrightarrow>
     dget distm s = Fin 0 \<and> pred_get predm s = None \<and>
     sound (src_init s) E (dget distm) \<and>
     (\<forall>b a. pred_get predm b = Some a \<longrightarrow>
        (\<exists>e \<in> set E. e_u e = a \<and> e_v e = b \<and>
           (\<exists>x y. dget distm a = Fin x \<and> dget distm b = Fin y \<and> x + e_w e \<le> y))) \<and>
     (\<forall>b. dget distm b \<noteq> PInf \<and> pred_get predm b = None \<longrightarrow> b = s) \<and>
     acyclic_pred predm"

text \<open>The part of the invariant that does not depend on what the predecessors are.\<close>

definition bf_inv0 ::
  "'n Edge list \<Rightarrow> 'n \<Rightarrow> ('n, ext) fmap \<Rightarrow> ('n, 'n option) fmap \<Rightarrow> bool" where
  "bf_inv0 E s distm predm \<longleftrightarrow>
     dget distm s = Fin 0 \<and> pred_get predm s = None \<and> sound (src_init s) E (dget distm)"

text \<open>
  Weights on which the double arithmetic of \<open>bellman_ford\<close> and of
  \<open>detect_any_negative_cycle\<close> is exact: whole numbers so small that any sum of
  len(nodes) * (len(edges) + len(nodes)) of them stays within 2 ** 53 in magnitude.
  Neither function adds more weights than that into one distance (\<open>detector_whole\<close>,
  \<open>bellman_ford_whole\<close>), and every whole number up to 2 ** 53 in magnitude is a double.
\<close>

definition exact_weights :: "'n list \<Rightarrow> 'n Edge list \<Rightarrow> bool" where
  "exact_weights nodes es \<longleftrightarrow>
     (\<forall>e \<in> set es. e_w e \<in> \<int>
        \<and> \<bar>e_w e\<bar> * real (length nodes * (length es + length nodes)) \<le> 2 ^ 53)"

text \<open>An extended cost that is infinite or a whole number of magnitude at most \<open>B\<close>.\<close>

definition whole_within :: "real \<Rightarrow> ext \<Rightarrow> bool" where
  "whole_within B x \<longleftrightarrow> (case x of PInf \<Rightarrow> True | Fin a \<Rightarrow> a \<in> \<int> \<and> \<bar>a\<bar> \<le> B)"

definition used_edges :: "('s, 'e) FSM \<Rightarrow> bool \<Rightarrow> 's Edge list" where
  "used_edges fsm forbid =
     (if forbid then filter (\<lambda>e. e_w e \<ge> 0) (edges_from_fsm fsm) else edges_from_fsm fsm)"

definition scenario3_fsm :: "(string py, unit) FSM" where
  "scenario3_fsm =
     \<lparr>states = [Py ''A'', Py ''B'', Py ''C''], initial = Py ''A'',
      fsm_edges = [((Py ''A'', None), [(Py ''B'', 1)]),
                   ((Py ''B'', None), [(Py ''A'', - 3), (Py ''C'', 1)]),
                   ((Py ''C'', None), [(Py ''A'', 1)])]\<rparr>"

definition loop_fsm :: "(string py, unit) FSM" where
  "loop_fsm =
     \<lparr>states = [Py ''A'', Py ''B'', Py ''C''], initial = Py ''A'',
      fsm_edges = [((Py ''C'', None), [(Py ''C'', - 1)])]\<rparr>"

definition scenario1_fsm :: "(string py, unit) FSM" where
  "scenario1_fsm =
     \<lparr>states = [Py ''A'', Py ''B'', Py ''C''], initial = Py ''A'',
      fsm_edges = [((Py ''A'', None), [(Py ''B'', 1)]),
                   ((Py ''B'', None), [(Py ''C'', 2)]),
                   ((Py ''C'', None), [(Py ''A'', 3)])]\<rparr>"

definition ab_fsm :: "(string py, unit) FSM" where
  "ab_fsm =
     \<lparr>states = [Py ''A'', Py ''B'', Py ''C''], initial = Py ''A'',
      fsm_edges = [((Py ''A'', None), [(Py ''B'', 1)])]\<rparr>"




definition out_step :: "'n \<Rightarrow> ext \<Rightarrow> 'n Edge \<Rightarrow> ('n \<Rightarrow> ext) \<Rightarrow> ('n \<Rightarrow> ext)" where
  "out_step x a e d =
     (if e_u e = x \<and> ext_less (ext_add a (e_w e)) (d (e_v e))
      then d(e_v e := ext_add a (e_w e)) else d)"

definition dij_inv :: "'n list \<Rightarrow> 'n Edge list \<Rightarrow> 'n \<Rightarrow> 'n list \<Rightarrow> ('n \<Rightarrow> ext) \<Rightarrow> bool" where
  "dij_inv nodes es s Q d \<longleftrightarrow>
     set Q \<subseteq> set nodes \<and>
     sound (src_init s) es d \<and>
     (\<forall>x \<in> set nodes - set Q. \<forall>y \<in> set Q. ext_le (d x) (d y)) \<and>
     (\<forall>e \<in> set es. e_u e \<notin> set Q \<longrightarrow> \<not> relaxable e d)"

section \<open>Properties of the state graph\<close>

lemma set_update_subset: "set (AList.update k v al) \<subseteq> insert (k, v) (set al)"
  by (induction al) auto

lemma filter_key_update:
  "distinct (map fst al) \<Longrightarrow> filter (\<lambda>p. fst p = k) (AList.update k v al) = [(k, v)]"
proof (induction al)
  case Nil
  then show ?case by simp
next
  case (Cons p ps)
  show ?case
  proof (cases "fst p = k")
    case True
    have "filter (\<lambda>q. fst q = k) ps = []"
      using Cons.prems True by (auto simp: filter_empty_conv intro: rev_image_eqI)
    then show ?thesis using True by simp
  next
    case False
    then show ?thesis using Cons by simp
  qed
qed

lemma concat_single_key:
  "distinct (map fst al) \<Longrightarrow> map_of al k = Some b \<Longrightarrow>
     concat (map (\<lambda>p. if fst p = k then h (snd p) else []) al) = h b"
proof (induction al)
  case Nil
  then show ?case by simp
next
  case (Cons p ps)
  show ?case
  proof (cases "fst p = k")
    case True
    have "concat (map (\<lambda>q. if fst q = k then h (snd q) else []) ps) = []"
      using Cons.prems(1) True by (induction ps) auto
    moreover have "snd p = b" using Cons.prems(2) True by (cases p) simp
    ultimately show ?thesis using True by simp
  next
    case False
    then have "map_of ps k = Some b" using Cons.prems(2) by (cases p) (simp split: if_splits)
    then show ?thesis using Cons False by simp
  qed
qed

lemma filter_transitions:
  "filter P (transitions f) =
     concat (map (\<lambda>p. filter P
        (map (\<lambda>(d, w). \<lparr>src = fst (fst p), event = snd (fst p), dst = d, weight = w\<rparr>) (snd p)))
        (fsm_edges f))"
  unfolding transitions_def filter_concat map_map
  by (rule arg_cong [where f = concat]) (auto simp: fun_eq_iff split: prod.splits)

lemma transitions_mem:
  "t \<in> set (transitions f) \<longleftrightarrow>
     (\<exists>b. ((src t, event t), b) \<in> set (fsm_edges f) \<and> (dst t, weight t) \<in> set b)"
proof
  assume "t \<in> set (transitions f)"
  then show "\<exists>b. ((src t, event t), b) \<in> set (fsm_edges f) \<and> (dst t, weight t) \<in> set b"
    unfolding transitions_def by (auto split: prod.splits)
next
  assume "\<exists>b. ((src t, event t), b) \<in> set (fsm_edges f) \<and> (dst t, weight t) \<in> set b"
  then obtain b where b: "((src t, event t), b) \<in> set (fsm_edges f)" "(dst t, weight t) \<in> set b"
    by blast
  have "t = (\<lambda>(d, w). \<lparr>src = src t, event = event t, dst = d, weight = w\<rparr>) (dst t, weight t)"
    by simp
  then have "t \<in> set (map (\<lambda>(d, w). \<lparr>src = src t, event = event t, dst = d, weight = w\<rparr>) b)"
    using b(2) by (metis (no_types, lifting) image_eqI set_map)
  then show "t \<in> set (transitions f)"
    unfolding transitions_def using b(1) by (force simp: image_iff)
qed

lemma fsm_inv_endpoints:
  assumes "fsm_inv f" and "t \<in> set (transitions f)"
  shows "src t \<in> set (states f) \<and> dst t \<in> set (states f)"
  using assms unfolding fsm_inv_def transitions_mem by fastforce

lemma FSM_init_inv: "FSM_init sts ini = Inr f \<Longrightarrow> fsm_inv f"
  by (auto simp: FSM_init_def fsm_inv_def split: if_splits)

lemma update_absent: "map_of al k = None \<Longrightarrow> AList.update k v al = al @ [(k, v)]"
  by (induction al) (auto split: if_splits)

text \<open>What \<open>setdefault\<close> leaves: the bucket of the key exists, with its old content.\<close>

lemma setdefault_edges:
  "(case map_of es key of None \<Rightarrow> AList.update key [] es | Some b \<Rightarrow> es)
     = AList.update key (case map_of es key of None \<Rightarrow> [] | Some b \<Rightarrow> b) es"
  by (cases "map_of es key") (simp_all add: update_triv)

lemma add_transition_edges:
  assumes "s \<in> set (states f)" and "d \<in> set (states f)" and "py_float w = Inr x"
  shows "add_transition f s d ev w =
           (Inr (), f\<lparr>fsm_edges := AList.update (s, ev) (AList.update d x (neighbors f s ev))
                                    (fsm_edges f)\<rparr>)"
proof (cases "map_of (fsm_edges f) (s, ev)")
  case None
  then show ?thesis
    using assms
    by (simp add: add_transition_def neighbors_def Let_def update_conv')
next
  case (Some b)
  then show ?thesis
    using assms by (simp add: add_transition_def neighbors_def Let_def)
qed

lemma add_transition_raise:
  assumes "s \<in> set (states f)" and "d \<in> set (states f)" and "py_float w = Inl err"
  shows "add_transition f s d ev w =
           (Inl err, f\<lparr>fsm_edges := AList.update (s, ev) (neighbors f s ev) (fsm_edges f)\<rparr>)"
  using assms
  by (simp add: add_transition_def neighbors_def Let_def setdefault_edges)

lemma transitions_setdefault:
  "transitions (f\<lparr>fsm_edges := AList.update (s, ev) (neighbors f s ev) (fsm_edges f)\<rparr>)
     = transitions f"
proof (cases "map_of (fsm_edges f) (s, ev)")
  case None
  then show ?thesis
    by (simp add: neighbors_def update_absent transitions_def)
next
  case (Some b)
  then show ?thesis
    by (simp add: neighbors_def update_triv)
qed

lemma add_transition_inv:
  assumes "fsm_inv f"
  shows "fsm_inv (snd (add_transition f s d ev w))"
proof (cases "s \<in> set (states f) \<and> d \<in> set (states f)")
  case False
  then show ?thesis using assms by (auto simp: add_transition_def)
next
  case True
  have nb: "distinct (map fst (neighbors f s ev))
            \<and> (\<forall>(d', w') \<in> set (neighbors f s ev). d' \<in> set (states f))"
    using assms unfolding fsm_inv_def neighbors_def
    by (auto split: option.splits dest!: map_of_SomeD)
  have upd: "fsm_inv (f\<lparr>fsm_edges := AList.update (s, ev) b (fsm_edges f)\<rparr>)"
    if b: "distinct (map fst b) \<and> (\<forall>(d', w') \<in> set b. d' \<in> set (states f))" for b
  proof -
    have "set (AList.update (s, ev) b (fsm_edges f)) \<subseteq> insert ((s, ev), b) (set (fsm_edges f))"
      by (rule set_update_subset)
    then have "\<forall>(k, b') \<in> set (AList.update (s, ev) b (fsm_edges f)).
          fst k \<in> set (states f) \<and> distinct (map fst b') \<and>
          (\<forall>(d', w') \<in> set b'. d' \<in> set (states f))"
      using assms b True unfolding fsm_inv_def by (auto 4 3)
    then show ?thesis
      using assms unfolding fsm_inv_def by (simp add: distinct_update)
  qed
  show ?thesis
  proof (cases "py_float w")
    case (Inl err)
    show ?thesis
      unfolding add_transition_raise [OF True [THEN conjunct1] True [THEN conjunct2] Inl]
      using upd [OF nb] by simp
  next
    case (Inr x)
    let ?b = "AList.update d x (neighbors f s ev)"
    have "distinct (map fst ?b) \<and> (\<forall>(d', w') \<in> set ?b. d' \<in> set (states f))"
      using nb True set_update_subset [of d x "neighbors f s ev"]
      by (auto simp: distinct_update)
    then show ?thesis
      unfolding add_transition_edges [OF True [THEN conjunct1] True [THEN conjunct2] Inr]
      using upd by simp
  qed
qed

lemma built_inv: "built f \<Longrightarrow> fsm_inv f"
  by (induction rule: built.induct) (auto intro: FSM_init_inv add_transition_inv)

lemma add_transition_single:
  assumes inv: "fsm_inv f" and s: "s \<in> set (states f)" and d: "d \<in> set (states f)"
    and w: "py_float w = Inr x"
  shows "filter (\<lambda>t. src t = s \<and> event t = ev \<and> dst t = d)
           (transitions (snd (add_transition f s d ev w)))
         = [\<lparr>src = s, event = ev, dst = d, weight = x\<rparr>]"
proof -
  let ?P = "\<lambda>t :: ('a, 'b) Transition. src t = s \<and> event t = ev \<and> dst t = d"
  let ?b = "AList.update d x (neighbors f s ev)"
  let ?es = "AList.update (s, ev) ?b (fsm_edges f)"
  let ?h = "\<lambda>b. map (\<lambda>(d', w'). \<lparr>src = s, event = ev, dst = d', weight = w'\<rparr>)
                  (filter (\<lambda>q. fst q = d) b)"
  have nb: "distinct (map fst (neighbors f s ev))"
    using inv unfolding fsm_inv_def neighbors_def
    by (auto split: option.splits dest!: map_of_SomeD)
  have each: "filter ?P (map (\<lambda>(d', w'). \<lparr>src = fst (fst p), event = snd (fst p),
                                           dst = d', weight = w'\<rparr>) (snd p))
              = (if fst p = (s, ev) then ?h (snd p) else [])" for p
    by (cases p)
       (auto simp: filter_map comp_def filter_empty_conv split: prod.splits
             intro!: arg_cong2 [where f = map] filter_cong)
  have "filter ?P (transitions (f\<lparr>fsm_edges := ?es\<rparr>))
          = concat (map (\<lambda>p. if fst p = (s, ev) then ?h (snd p) else []) ?es)"
    unfolding filter_transitions by (simp add: each)
  also have "\<dots> = ?h ?b"
    using inv by (intro concat_single_key) (simp_all add: fsm_inv_def distinct_update update_conv')
  also have "\<dots> = [\<lparr>src = s, event = ev, dst = d, weight = x\<rparr>]"
    using filter_key_update [OF nb, of d x] by simp
  finally show ?thesis
    by (simp add: add_transition_edges [OF s d w])
qed

subsection \<open>Converting a weight\<close>

lemma floorlog_small: "n < 2 ^ 53 \<Longrightarrow> floorlog 2 n - 53 = 0"
  using floorlog_leI [of n 2 53] by simp

lemma round_to_double_small: "n < 2 ^ 53 \<Longrightarrow> round_to_double n = n"
  by (simp add: round_to_double_def floorlog_small)

lemma py_round_small: "\<bar>n\<bar> < 2 ^ 53 \<Longrightarrow> py_round (PInt n) = of_int n"
proof -
  assume a: "\<bar>n\<bar> < 2 ^ 53"
  show ?thesis
  proof (cases "n < 0")
    case True
    then have "nat (- n) < 2 ^ 53" using a by (simp add: nat_less_iff)
    then have "round_to_double (nat (- n)) = nat (- n)" by (rule round_to_double_small)
    then show ?thesis using True by simp
  next
    case False
    then have "nat n < 2 ^ 53" using a by (simp add: nat_less_iff)
    then have "round_to_double (nat n) = nat n" by (rule round_to_double_small)
    then show ?thesis using False by simp
  qed
qed

lemma py_float_small: "\<bar>n\<bar> < 2 ^ 53 \<Longrightarrow> py_float (PInt n) = Inr (of_int n)"
proof -
  assume a: "\<bar>n\<bar> < 2 ^ 53"
  then have "nat \<bar>n\<bar> < 2 ^ 53" by (simp add: nat_less_iff)
  then have r: "round_to_double (nat \<bar>n\<bar>) = nat \<bar>n\<bar>" by (rule round_to_double_small)
  have "(nat \<bar>n\<bar> :: nat) < 2 ^ 1024"
    using \<open>nat \<bar>n\<bar> < 2 ^ 53\<close> by (rule less_trans) simp
  then have "\<not> 2 ^ 1024 \<le> round_to_double (nat \<bar>n\<bar>)" unfolding r by simp
  then show ?thesis
    unfolding py_float.simps using py_round_small [OF a] by simp
qed

lemma round_to_double_large:
  assumes "2 ^ 1024 \<le> n"
  shows "2 ^ 1024 \<le> round_to_double n"
proof -
  let ?k = "floorlog 2 n"
  let ?e = "?k - 53"
  have n0: "0 < n" using assms by (simp add: less_le_trans [of 0 "2 ^ 1024"])
  have k: "1025 \<le> ?k"
    using floorlog_ge_SucI [of 2 1024 n] assms by simp
  have lo: "2 ^ (?k - 1) \<le> n"
    using floorlog_bounds [of n 2] n0 by simp
  have e: "?e \<noteq> 0" "?k - 1 = 52 + ?e" using k by simp_all
  let ?q = "n div 2 ^ ?e"
  have "2 ^ 52 * 2 ^ ?e \<le> n" using lo unfolding e(2) by (simp add: power_add)
  then have q: "2 ^ 52 \<le> ?q"
    by (simp add: less_eq_div_iff_mult_less_eq)
  have "2 ^ 1024 \<le> (2::nat) ^ (?k - 1)" using k by (intro power_increasing) simp_all
  also have "\<dots> = 2 ^ 52 * 2 ^ ?e" unfolding e(2) by (simp add: power_add)
  also have "\<dots> \<le> ?q * 2 ^ ?e" using q by simp
  also have "\<dots> \<le> round_to_double n"
    using e(1) by (simp add: round_to_double_def Let_def)
  finally show ?thesis .
qed

lemma py_float_large: "2 ^ 1024 \<le> \<bar>n\<bar> \<Longrightarrow> py_float (PInt n) = Inl OverflowError"
proof -
  assume "2 ^ 1024 \<le> \<bar>n\<bar>"
  then have "2 ^ 1024 \<le> nat \<bar>n\<bar>" by (simp add: le_nat_iff)
  then have "2 ^ 1024 \<le> round_to_double (nat \<bar>n\<bar>)" by (rule round_to_double_large)
  then show ?thesis unfolding py_float.simps by simp
qed

declare py_float.simps(2) [simp del]

text \<open>
  C7, as amended. On every machine built by the constructor and \<open>add_transition\<close>, each
  stored edge has its source and destination among the registered states.
  \<open>add_transition\<close> raises when an endpoint is not registered and then leaves the machine
  as it was. When both are registered and the weight converts to a float, it returns
  normally, keeps the states, sets the weight of the key (source, event, destination) to
  the converted weight whatever it was before, leaves every other bucket alone, and the
  machine then holds exactly one edge for that key, with the converted weight. When both
  are registered and the conversion raises, that error is raised and every bucket and
  every edge stays as it was.
\<close>

theorem add_transition_contract:
  assumes "built f"
  shows "(\<forall>t \<in> set (transitions f). src t \<in> set (states f) \<and> dst t \<in> set (states f))
    \<and> (s \<notin> set (states f) \<or> d \<notin> set (states f) \<longrightarrow>
         add_transition f s d ev w
           = (Inl (ValueError ''src/dst must be existing states''), f))
    \<and> (s \<in> set (states f) \<and> d \<in> set (states f) \<longrightarrow>
         (\<forall>x. py_float w = Inr x \<longrightarrow>
            (\<exists>f'. add_transition f s d ev w = (Inr (), f')
               \<and> states f' = states f \<and> initial f' = initial f
               \<and> map_of (neighbors f' s ev) = (map_of (neighbors f s ev))(d \<mapsto> x)
               \<and> (\<forall>s' ev'. (s', ev') \<noteq> (s, ev) \<longrightarrow> neighbors f' s' ev' = neighbors f s' ev')
               \<and> filter (\<lambda>t. src t = s \<and> event t = ev \<and> dst t = d) (transitions f')
                   = [\<lparr>src = s, event = ev, dst = d, weight = x\<rparr>]))
       \<and> (\<forall>err. py_float w = Inl err \<longrightarrow>
            (\<exists>f'. add_transition f s d ev w = (Inl err, f')
               \<and> states f' = states f \<and> initial f' = initial f
               \<and> (\<forall>s' ev'. neighbors f' s' ev' = neighbors f s' ev')
               \<and> transitions f' = transitions f)))"
proof (intro conjI impI allI)
  show "\<forall>t \<in> set (transitions f). src t \<in> set (states f) \<and> dst t \<in> set (states f)"
    using fsm_inv_endpoints [OF built_inv [OF assms]] by blast
next
  assume "s \<notin> set (states f) \<or> d \<notin> set (states f)"
  then show "add_transition f s d ev w
               = (Inl (ValueError ''src/dst must be existing states''), f)"
    by (auto simp: add_transition_def)
next
  fix x
  assume sd: "s \<in> set (states f) \<and> d \<in> set (states f)" and w: "py_float w = Inr x"
  let ?f' = "f\<lparr>fsm_edges := AList.update (s, ev) (AList.update d x (neighbors f s ev))
                                (fsm_edges f)\<rparr>"
  have run: "add_transition f s d ev w = (Inr (), ?f')"
    using sd w by (simp add: add_transition_edges)
  have one: "filter (\<lambda>t. src t = s \<and> event t = ev \<and> dst t = d) (transitions ?f')
               = [\<lparr>src = s, event = ev, dst = d, weight = x\<rparr>]"
    using add_transition_single [OF built_inv [OF assms] conjunct1 [OF sd] conjunct2 [OF sd] w,
        of ev] run by simp
  have nb: "map_of (neighbors ?f' s ev) = (map_of (neighbors f s ev))(d \<mapsto> x)"
    by (simp add: neighbors_def update_conv')
  have other: "\<forall>s' ev'. (s', ev') \<noteq> (s, ev) \<longrightarrow> neighbors ?f' s' ev' = neighbors f s' ev'"
    by (auto simp: neighbors_def update_conv')
  show "\<exists>f'. add_transition f s d ev w = (Inr (), f')
            \<and> states f' = states f \<and> initial f' = initial f
            \<and> map_of (neighbors f' s ev) = (map_of (neighbors f s ev))(d \<mapsto> x)
            \<and> (\<forall>s' ev'. (s', ev') \<noteq> (s, ev) \<longrightarrow> neighbors f' s' ev' = neighbors f s' ev')
            \<and> filter (\<lambda>t. src t = s \<and> event t = ev \<and> dst t = d) (transitions f')
                = [\<lparr>src = s, event = ev, dst = d, weight = x\<rparr>]"
    using run one nb other by (intro exI [of _ ?f']) simp
next
  fix err
  assume sd: "s \<in> set (states f) \<and> d \<in> set (states f)" and w: "py_float w = Inl err"
  let ?f' = "f\<lparr>fsm_edges := AList.update (s, ev) (neighbors f s ev) (fsm_edges f)\<rparr>"
  have run: "add_transition f s d ev w = (Inl err, ?f')"
    using sd w by (simp add: add_transition_raise)
  have nb: "\<forall>s' ev'. neighbors ?f' s' ev' = neighbors f s' ev'"
    by (auto simp: neighbors_def update_conv' split: option.splits)
  show "\<exists>f'. add_transition f s d ev w = (Inl err, f')
            \<and> states f' = states f \<and> initial f' = initial f
            \<and> (\<forall>s' ev'. neighbors f' s' ev' = neighbors f s' ev')
            \<and> transitions f' = transitions f"
    using run nb transitions_setdefault [where f = f and s = s and ev = ev]
    by (intro exI [of _ ?f']) simp
qed

theorem add_transition_contract_witness:
  "add_transition
       (snd (add_transition \<lparr>states = [''A'', ''B''], initial = ''A'', fsm_edges = []\<rparr>
               ''A'' ''B'' (None :: unit option) (PInt 1)))
       ''A'' ''Z'' None (PInt 1)
     = (Inl (ValueError ''src/dst must be existing states''),
        snd (add_transition \<lparr>states = [''A'', ''B''], initial = ''A'', fsm_edges = []\<rparr>
               ''A'' ''B'' None (PInt 1)))
   \<and> (\<exists>f'. add_transition
              (snd (add_transition \<lparr>states = [''A'', ''B''], initial = ''A'', fsm_edges = []\<rparr>
                      ''A'' ''B'' (None :: unit option) (PInt 1)))
              ''A'' ''B'' None (PInt 5) = (Inr (), f')
          \<and> filter (\<lambda>t. src t = ''A'' \<and> event t = None \<and> dst t = ''B'') (transitions f')
              = [\<lparr>src = ''A'', event = None, dst = ''B'', weight = 5\<rparr>])
   \<and> (\<exists>f'. add_transition
              (snd (add_transition \<lparr>states = [''A'', ''B''], initial = ''A'', fsm_edges = []\<rparr>
                      ''A'' ''B'' (None :: unit option) (PInt 1)))
              ''A'' ''B'' None (PInt (2 ^ 1024)) = (Inl OverflowError, f')
          \<and> transitions f'
              = transitions
                  (snd (add_transition \<lparr>states = [''A'', ''B''], initial = ''A'', fsm_edges = []\<rparr>
                          ''A'' ''B'' (None :: unit option) (PInt 1))))"
proof -
  let ?f0 = "\<lparr>states = [''A'', ''B''], initial = ''A'', fsm_edges = []\<rparr> :: (string, unit) FSM"
  let ?f1 = "snd (add_transition ?f0 ''A'' ''B'' None (PInt 1))"
  have "FSM_init [''A'', ''B''] ''A'' = Inr ?f0"
    by (simp add: FSM_init_def)
  then have b: "built ?f1"
    by (intro built_add built_init)
  have st: "states ?f1 = [''A'', ''B'']"
    by (simp add: add_transition_def Let_def py_float_small)
  have c1: "py_float (PInt 1) = Inr 1" "py_float (PInt 5) = Inr 5"
    using py_float_small [of 1] py_float_small [of 5] by simp_all
  have c2: "py_float (PInt (2 ^ 1024)) = Inl OverflowError"
    by (rule py_float_large) simp
  show ?thesis
    using add_transition_contract [OF b, of "''A''" "''Z''" None "PInt 1"]
          add_transition_contract [OF b, of "''A''" "''B''" None "PInt 5"]
          add_transition_contract [OF b, of "''A''" "''B''" None "PInt (2 ^ 1024)"]
    unfolding st c1 c2 by auto
qed

text \<open>
  The claim as stated fails: with both endpoints registered and an edge A\<rightarrow>B of weight 1
  stored, adding A\<rightarrow>B with the int 10 ** 400 as weight raises \<open>OverflowError\<close>, and the
  stored weight is still 1.
\<close>

theorem add_transition_contract_counterexample:
  "FSM_init [''A'', ''B''] ''A''
     = Inr (\<lparr>states = [''A'', ''B''], initial = ''A'', fsm_edges = []\<rparr> :: (string, unit) FSM)
   \<and> add_transition \<lparr>states = [''A'', ''B''], initial = ''A'', fsm_edges = []\<rparr>
        ''A'' ''B'' (None :: unit option) (PInt 1)
     = (Inr (), \<lparr>states = [''A'', ''B''], initial = ''A'',
                 fsm_edges = [((''A'', None), [(''B'', 1)])]\<rparr>)
   \<and> add_transition \<lparr>states = [''A'', ''B''], initial = ''A'',
                      fsm_edges = [((''A'', None), [(''B'', 1)])]\<rparr>
        ''A'' ''B'' (None :: unit option) (PInt huge)
     = (Inl OverflowError, \<lparr>states = [''A'', ''B''], initial = ''A'',
                            fsm_edges = [((''A'', None), [(''B'', 1)])]\<rparr>)
   \<and> add_transition \<lparr>states = [''A'', ''B''], initial = ''A'', fsm_edges = []\<rparr>
        ''A'' ''B'' (None :: unit option) (PInt huge)
     = (Inl OverflowError, \<lparr>states = [''A'', ''B''], initial = ''A'',
                            fsm_edges = [((''A'', None), [])]\<rparr>)"
proof -
  have big: "(2::int) ^ 1024 \<le> \<bar>huge\<bar>"
    by (simp add: huge_def)
  have c1: "py_float (PInt 1) = Inr 1"
    using py_float_small [of 1] by simp
  have c2: "py_float (PInt huge) = Inl OverflowError"
    using big by (rule py_float_large)
  show ?thesis
    unfolding add_transition_def Let_def c1 c2 FSM_init_def by simp
qed

section \<open>Walks, cycles and potentials\<close>

subsection \<open>The order on extended costs\<close>

lemma ext_le_simps [simp]:
  "ext_le (Fin a) (Fin b) \<longleftrightarrow> a \<le> b"
  "ext_le x PInf"
  "ext_le PInf (Fin b) \<longleftrightarrow> False"
  by (cases x; auto simp: ext_le_def)+

lemma ext_less_irrefl [simp]: "\<not> ext_less a a"
  by (cases a) auto

lemma ext_le_refl [simp]: "ext_le a a"
  by (cases a) auto

lemma ext_le_trans: "ext_le a b \<Longrightarrow> ext_le b c \<Longrightarrow> ext_le a c"
  by (cases a; cases b; cases c) auto

lemma ext_le_antisym: "ext_le a b \<Longrightarrow> ext_le b a \<Longrightarrow> a = b"
  by (cases a; cases b) auto

lemma ext_less_le: "ext_less a b \<Longrightarrow> ext_le a b"
  by (cases a; cases b) auto

lemma ext_less_Fin: "ext_less a b \<Longrightarrow> \<exists>x. a = Fin x"
  by (cases a) auto

lemma ext_add_Fin: "ext_add a w = Fin c \<longleftrightarrow> (\<exists>x. a = Fin x \<and> c = x + w)"
  by (cases a) auto

lemma ext_add_mono: "ext_le a b \<Longrightarrow> ext_le (ext_add a w) (ext_add b w)"
  by (cases a; cases b) auto

lemma ext_le_Fin_right: "ext_le a (Fin c) \<longleftrightarrow> (\<exists>x. a = Fin x \<and> x \<le> c)"
  by (cases a) auto

subsection \<open>Walks\<close>

lemma cost_of_simps [simp]:
  "cost_of [] = 0"
  "cost_of (e # p) = e_w e + cost_of p"
  "cost_of (p @ q) = cost_of p + cost_of q"
  by (simp_all add: cost_of_def)

lemma walk_append:
  "walk E a (p @ q) b \<longleftrightarrow> (\<exists>m. walk E a p m \<and> walk E m q b)"
  by (induction p arbitrary: a) auto

lemma walk_snoc:
  "walk E a (p @ [e]) b \<longleftrightarrow> walk E a p (e_u e) \<and> e \<in> set E \<and> e_v e = b"
  by (auto simp: walk_append)


lemma walk_end: "walk E a p b \<Longrightarrow> (a # map e_v p) ! length p = b"
  by (induction p arbitrary: a) auto

lemma walk_split:
  "walk E a p b \<Longrightarrow> i \<le> length p \<Longrightarrow>
     walk E a (take i p) ((a # map e_v p) ! i) \<and> walk E ((a # map e_v p) ! i) (drop i p) b"
proof (induction p arbitrary: a i)
  case Nil
  then show ?case by simp
next
  case (Cons e p)
  show ?case
  proof (cases i)
    case 0
    then show ?thesis using Cons.prems by simp
  next
    case (Suc j)
    then show ?thesis using Cons.prems Cons.IH [of "e_v e" j] by simp
  qed
qed

lemma walk_verts_in:
  assumes "walk E a p b" and "a \<in> V" and "\<forall>e \<in> set E. e_v e \<in> V"
  shows "set (a # map e_v p) \<subseteq> V"
  using assms by (induction p arbitrary: a) auto

text \<open>A closed stretch can be cut out of a walk.\<close>

lemma walk_cut:
  assumes w: "walk E a p b" and ij: "i < j" "j \<le> length p"
    and eq: "(a # map e_v p) ! i = (a # map e_v p) ! j"
  shows "walk E a (take i p @ drop j p) b
       \<and> walk E ((a # map e_v p) ! i) (drop i (take j p)) ((a # map e_v p) ! i)
       \<and> cost_of p = cost_of (take i p @ drop j p) + cost_of (drop i (take j p))"
proof -
  let ?vs = "a # map e_v p"
  have wi: "walk E a (take i p) (?vs ! i)" and wi': "walk E (?vs ! i) (drop i p) b"
    using walk_split [OF w, of i] ij by simp_all
  have wj: "walk E a (take j p) (?vs ! j)" and wj': "walk E (?vs ! j) (drop j p) b"
    using walk_split [OF w, of j] ij by simp_all
  have tj: "take j p = take i p @ drop i (take j p)"
    using ij by (metis append_take_drop_id less_imp_le_nat min.absorb2 take_take min.commute)
  have "walk E a (take i p @ drop i (take j p)) (?vs ! j)"
    using wj tj by simp
  then obtain m where m: "walk E a (take i p) m" "walk E m (drop i (take j p)) (?vs ! j)"
    unfolding walk_append by blast
  have "m = ?vs ! i"
  proof -
    have "(a # map e_v (take i p)) ! length (take i p) = m"
      using walk_end [OF m(1)] .
    moreover have "(a # map e_v (take i p)) ! length (take i p) = ?vs ! i"
      using walk_end [OF wi] .
    ultimately show ?thesis by simp
  qed
  then have mid: "walk E (?vs ! i) (drop i (take j p)) (?vs ! i)"
    using m(2) eq by simp
  have cut: "walk E a (take i p @ drop j p) b"
    unfolding walk_append using wi wj' eq by auto
  have "p = take i p @ drop i (take j p) @ drop j p"
    using tj by (metis append.assoc append_take_drop_id)
  then have "cost_of p = cost_of (take i p @ drop i (take j p) @ drop j p)"
    by simp
  then have "cost_of p = cost_of (take i p @ drop j p) + cost_of (drop i (take j p))"
    by simp
  then show ?thesis using cut mid by blast
qed

text \<open>
  Without a negative cycle, every walk between nodes of a finite set can be replaced by
  one that is no dearer and has fewer edges than the set has nodes.
\<close>

lemma short_walk:
  assumes nn: "\<not> negative_cycle E" and fin: "finite V" and V: "\<forall>e \<in> set E. e_v e \<in> V"
  shows "walk E a p b \<Longrightarrow> a \<in> V \<Longrightarrow>
           \<exists>q. walk E a q b \<and> cost_of q \<le> cost_of p \<and> length q < card V"
proof (induction "length p" arbitrary: p rule: less_induct)
  case less
  show ?case
  proof (cases "length p < card V")
    case True
    then show ?thesis using less.prems by blast
  next
    case False
    let ?vs = "a # map e_v p"
    have sub: "set ?vs \<subseteq> V"
      using walk_verts_in [OF less.prems(1) less.prems(2) V] .
    have "\<not> distinct ?vs"
    proof
      assume "distinct ?vs"
      then have "card (set ?vs) = length ?vs" by (rule distinct_card)
      moreover have "card (set ?vs) \<le> card V" using sub fin by (rule card_mono [rotated])
      ultimately show False using False by simp
    qed
    then obtain i j where ij: "i < length ?vs" "j < length ?vs" "i \<noteq> j" "?vs ! i = ?vs ! j"
      unfolding distinct_conv_nth by blast
    define i' where "i' = min i j"
    define j' where "j' = max i j"
    have ij': "i' < j'" "j' \<le> length p" "?vs ! i' = ?vs ! j'"
      using ij by (auto simp: i'_def j'_def min_def max_def)
    let ?q = "take i' p @ drop j' p"
    let ?c = "drop i' (take j' p)"
    have cut: "walk E a ?q b" "walk E (?vs ! i') ?c (?vs ! i')"
      "cost_of p = cost_of ?q + cost_of ?c"
      using walk_cut [OF less.prems(1) ij'(1) ij'(2) ij'(3)] by blast+
    have "0 \<le> cost_of ?c"
      using nn cut(2) unfolding negative_cycle_def by (meson not_less)
    then have le: "cost_of ?q \<le> cost_of p" using cut(3) by simp
    have "length ?q < length p" using ij' by simp
    from less.hyps [OF this cut(1) less.prems(2)]
    obtain q where "walk E a q b" "cost_of q \<le> cost_of ?q" "length q < card V" by blast
    then show ?thesis using le by (intro exI [of _ q]) simp
  qed
qed

subsection \<open>Potentials\<close>

text \<open>
  Where no edge can be relaxed, a finite distance at the start of a walk bounds the
  distance at its end.
\<close>

lemma feasible_walk:
  assumes "feasible E D"
  shows "walk E a p b \<Longrightarrow> D a = Fin x \<Longrightarrow> ext_le (D b) (Fin (x + cost_of p))"
proof (induction p arbitrary: a x)
  case Nil
  then show ?case by simp
next
  case (Cons e p)
  have e: "e \<in> set E" "e_u e = a" and w: "walk E (e_v e) p b"
    using Cons.prems(1) by simp_all
  have "\<not> ext_less (ext_add (D a) (e_w e)) (D (e_v e))"
    using assms e unfolding feasible_def relaxable_def by auto
  then obtain y where y: "D (e_v e) = Fin y" "y \<le> x + e_w e"
    using Cons.prems(2) by (cases "D (e_v e)") auto
  have "ext_le (D b) (Fin (y + cost_of p))"
    using Cons.IH [OF w y(1)] .
  then show ?case
    using y(2) by (auto simp: ext_le_Fin_right)
qed

lemma feasible_no_negative_cycle:
  assumes "feasible E D" and "\<forall>e \<in> set E. D (e_u e) \<noteq> PInf"
  shows "\<not> negative_cycle E"
proof
  assume "negative_cycle E"
  then obtain a p where p: "walk E a p a" "cost_of p < 0"
    unfolding negative_cycle_def by blast
  then have "p \<noteq> []" by auto
  then obtain e q where eq: "p = e # q" by (cases p) auto
  then have "e \<in> set E" "e_u e = a" using p(1) by simp_all
  then obtain x where x: "D a = Fin x" using assms(2) by (cases "D a") auto
  have "ext_le (D a) (Fin (x + cost_of p))"
    using feasible_walk [OF assms(1) p(1) x] .
  then show False using x p(2) by simp
qed

subsection \<open>Relaxation on total distance functions\<close>

lemma arelax_le: "ext_le (arelax e D b) (D b)"
  by (auto simp: arelax_def relaxable_def ext_less_le)

lemma arelax_edge: "ext_le (arelax e D (e_v e)) (ext_add (D (e_u e)) (e_w e))"
  by (auto simp: arelax_def relaxable_def ext_le_def)

lemma fold_arelax_le: "ext_le (fold arelax L D b) (D b)"
proof (induction L arbitrary: D)
  case Nil
  then show ?case by simp
next
  case (Cons e L)
  show ?case
    using Cons.IH [of "arelax e D"] arelax_le [of e D b] by (auto intro: ext_le_trans)
qed

lemma fold_arelax_edge:
  "e \<in> set L \<Longrightarrow> ext_le (fold arelax L D (e_v e)) (ext_add (D (e_u e)) (e_w e))"
proof (induction L arbitrary: D)
  case Nil
  then show ?case by simp
next
  case (Cons e' L)
  show ?case
  proof (cases "e = e'")
    case True
    have "ext_le (fold arelax L (arelax e D) (e_v e)) (arelax e D (e_v e))"
      by (rule fold_arelax_le)
    then show ?thesis
      using True arelax_edge [of e D] by (auto intro: ext_le_trans)
  next
    case False
    then have "e \<in> set L" using Cons.prems by simp
    then have "ext_le (fold arelax L (arelax e' D) (e_v e))
                 (ext_add (arelax e' D (e_u e)) (e_w e))"
      by (rule Cons.IH)
    moreover have "ext_le (ext_add (arelax e' D (e_u e)) (e_w e)) (ext_add (D (e_u e)) (e_w e))"
      by (intro ext_add_mono arelax_le)
    ultimately show ?thesis by (auto intro: ext_le_trans)
  qed
qed

lemma fold_arelax_feasible: "feasible L D \<Longrightarrow> fold arelax L D = D"
proof (induction L)
  case Nil
  then show ?case by simp
next
  case (Cons e L)
  then show ?case by (simp add: feasible_def arelax_def)
qed

lemma funpow_feasible: "feasible L D \<Longrightarrow> (fold arelax L ^^ k) D = D"
  by (induction k) (simp_all add: fold_arelax_feasible)

subsection \<open>Soundness: every finite distance is the cost of a walk\<close>

lemma sound_init: "sound D0 E D0"
  unfolding sound_def reaches_def
  by (metis add.right_neutral cost_of_simps(1) walk.simps(1))

lemma reaches_step:
  assumes "reaches D0 E (e_u e) c" and "e \<in> set E"
  shows "reaches D0 E (e_v e) (c + e_w e)"
proof -
  obtain a x p where p: "D0 a = Fin x" "walk E a p (e_u e)" "c = x + cost_of p"
    using assms(1) unfolding reaches_def by blast
  have "walk E a (p @ [e]) (e_v e)"
    using p(2) assms(2) by (simp add: walk_snoc)
  moreover have "c + e_w e = x + cost_of (p @ [e])"
    using p(3) by simp
  ultimately show ?thesis
    unfolding reaches_def using p(1) by blast
qed

lemma sound_arelax:
  assumes "sound D0 E D" and "e \<in> set E"
  shows "sound D0 E (arelax e D)"
  unfolding sound_def
proof (intro allI impI)
  fix b c
  assume bc: "arelax e D b = Fin c"
  show "reaches D0 E b c"
  proof (cases "relaxable e D \<and> b = e_v e")
    case True
    then have "ext_add (D (e_u e)) (e_w e) = Fin c"
      using bc by (simp add: arelax_def)
    then obtain x where x: "D (e_u e) = Fin x" "c = x + e_w e"
      unfolding ext_add_Fin by blast
    then have "reaches D0 E (e_u e) x"
      using assms(1) unfolding sound_def by blast
    then show ?thesis
      using reaches_step [OF _ assms(2)] x(2) True by blast
  next
    case False
    then have "D b = Fin c" using bc by (auto simp: arelax_def split: if_splits)
    then show ?thesis using assms(1) unfolding sound_def by blast
  qed
qed

lemma sound_fold:
  "sound D0 E D \<Longrightarrow> set L \<subseteq> set E \<Longrightarrow> sound D0 E (fold arelax L D)"
  by (induction L arbitrary: D) (auto intro: sound_arelax)

lemma sound_funpow: "sound D0 E D \<Longrightarrow> sound D0 E ((fold arelax E ^^ k) D)"
  by (induction k) (auto intro: sound_fold)

subsection \<open>Coverage: \<open>k\<close> passes account for every walk of at most \<open>k\<close> edges\<close>

lemma covers_init: "covers D0 E 0 D0"
  unfolding covers_def by auto

lemma covers_pass:
  assumes "covers D0 E k D"
  shows "covers D0 E (Suc k) (fold arelax E D)"
  unfolding covers_def
proof (intro allI impI, elim conjE)
  fix a x p b
  assume a: "D0 a = Fin x" and w: "walk E a p b" and len: "length p \<le> Suc k"
  show "ext_le (fold arelax E D b) (Fin (x + cost_of p))"
  proof (cases "length p \<le> k")
    case True
    then have "ext_le (D b) (Fin (x + cost_of p))"
      using assms a w unfolding covers_def by blast
    then show ?thesis
      using fold_arelax_le [of E D b] by (auto intro: ext_le_trans)
  next
    case False
    then have "p \<noteq> []" by auto
    then obtain q e where pq: "p = q @ [e]" by (metis rev_exhaust)
    have q: "walk E a q (e_u e)" "e \<in> set E" "e_v e = b"
      using w unfolding pq walk_snoc by simp_all
    have "length q \<le> k" using len pq by simp
    then have "ext_le (D (e_u e)) (Fin (x + cost_of q))"
      using assms a q(1) unfolding covers_def by blast
    then have "ext_le (ext_add (D (e_u e)) (e_w e)) (Fin (x + cost_of q + e_w e))"
      using ext_add_mono [of "D (e_u e)" "Fin (x + cost_of q)" "e_w e"] by simp
    moreover have "ext_le (fold arelax E D (e_v e)) (ext_add (D (e_u e)) (e_w e))"
      using fold_arelax_edge [OF q(2)] .
    ultimately have "ext_le (fold arelax E D (e_v e)) (Fin (x + cost_of q + e_w e))"
      by (auto intro: ext_le_trans)
    then show ?thesis using q(3) pq by (simp add: add.assoc)
  qed
qed

lemma covers_funpow: "covers D0 E k ((fold arelax E ^^ k) D0)"
  by (induction k) (auto intro: covers_init covers_pass)

text \<open>
  The heart of Bellman-Ford: without a negative cycle, enough passes leave no edge that
  can be relaxed.
\<close>

lemma passes_feasible:
  assumes nn: "\<not> negative_cycle E" and fin: "finite V"
    and V: "\<forall>e \<in> set E. e_v e \<in> V" and V0: "\<forall>a. D0 a \<noteq> PInf \<longrightarrow> a \<in> V"
    and K: "card V \<le> Suc K"
  shows "feasible E ((fold arelax E ^^ K) D0)"
  unfolding feasible_def
proof
  fix e
  assume e: "e \<in> set E"
  let ?D = "(fold arelax E ^^ K) D0"
  show "\<not> relaxable e ?D"
  proof (cases "?D (e_u e)")
    case PInf
    then show ?thesis by (simp add: relaxable_def)
  next
    case (Fin c)
    have "sound D0 E ?D" by (intro sound_funpow sound_init)
    then have "reaches D0 E (e_u e) c" using Fin unfolding sound_def by blast
    then obtain a x p where p: "D0 a = Fin x" "walk E a p (e_u e)" "c = x + cost_of p"
      unfolding reaches_def by blast
    have w: "walk E a (p @ [e]) (e_v e)" using p(2) e by (simp add: walk_snoc)
    have aV: "a \<in> V" using V0 p(1) by auto
    obtain q where q: "walk E a q (e_v e)" "cost_of q \<le> cost_of (p @ [e])" "length q < card V"
      using short_walk [OF nn fin V w aV] by blast
    have "length q \<le> K" using q(3) K by simp
    then have "ext_le (?D (e_v e)) (Fin (x + cost_of q))"
      using covers_funpow [of D0 E K] p(1) q(1) unfolding covers_def by blast
    then have "ext_le (?D (e_v e)) (Fin (c + e_w e))"
      using q(2) p(3) by (auto simp: ext_le_Fin_right)
    then show ?thesis
      using Fin by (simp add: relaxable_def ext_le_def)
  qed
qed

section \<open>The negative-cycle detector\<close>

lemma dget_fmupd [simp]: "dget (fmupd k x m) = (dget m)(k := x)"
  by (auto simp: dget_def fun_eq_iff)

lemma map_of_const:
  "map_of (map (\<lambda>n. (f n, c)) ns) x = (if x \<in> f ` set ns then Some c else None)"
  by (induction ns) auto

lemma dget_detect_relax: "dget (detect_relax e m) = arelax e (dget m)"
  by (simp add: detect_relax_def arelax_def relaxable_def)

lemma dget_fold_detect: "dget (fold detect_relax L m) = fold arelax L (dget m)"
  by (induction L arbitrary: m) (simp_all add: dget_detect_relax)

lemma dget_detect_loop: "dget (detect_loop k L m) = (fold arelax L ^^ k) (dget m)"
  by (induction k arbitrary: m) (simp_all add: dget_fold_detect funpow_swap1)

lemma detect_check_feasible: "detect_check L m \<longleftrightarrow> \<not> feasible L (dget m)"
  by (induction L) (auto simp: feasible_def relaxable_def)

lemma funpow_arelax_le: "ext_le ((fold arelax L ^^ k) D b) (D b)"
proof (induction k)
  case 0
  then show ?case by simp
next
  case (Suc k)
  have "ext_le (fold arelax L ((fold arelax L ^^ k) D) b) ((fold arelax L ^^ k) D b)"
    by (rule fold_arelax_le)
  then show ?case using Suc by (auto intro: ext_le_trans)
qed

subsection \<open>Walks of the graph and of the graph with the super source\<close>

lemma walk_lift:
  "walk es a p b \<Longrightarrow> walk (map lift_edge es @ sps) (Node a) (map lift_edge p) (Node b)"
  by (induction p arbitrary: a) (auto simp: lift_edge_def)

lemma cost_lift [simp]: "cost_of (map lift_edge p) = cost_of p"
  by (induction p) (simp_all add: lift_edge_def)

lemma walk_unlift:
  assumes sps: "\<forall>e \<in> set sps. e_u e = SuperSource"
  shows "walk (map lift_edge es @ sps) (Node a) q c \<Longrightarrow>
           \<exists>p b. c = Node b \<and> q = map lift_edge p \<and> walk es a p b"
proof (induction q arbitrary: a)
  case Nil
  then show ?case by auto
next
  case (Cons e q)
  have e: "e \<in> set (map lift_edge es @ sps)" "e_u e = Node a"
    and w: "walk (map lift_edge es @ sps) (e_v e) q c"
    using Cons.prems by simp_all
  have "e \<notin> set sps" using sps e(2) by auto
  then obtain e' where e': "e' \<in> set es" "e = lift_edge e'"
    using e(1) by auto
  have ends: "e_u e' = a" "e_v e = Node (e_v e')"
    using e(2) e'(2) by (simp_all add: lift_edge_def)
  obtain p b where p: "c = Node b" "q = map lift_edge p" "walk es (e_v e') p b"
    using Cons.IH [of "e_v e'"] w ends(2) by auto
  show ?case
    using p e' ends by (intro exI [of _ "e' # p"] exI [of _ b]) simp
qed

lemma negative_cycle_lift:
  assumes sps: "\<forall>e \<in> set sps. e_u e = SuperSource"
    and sps': "\<forall>e \<in> set sps. e_v e \<noteq> SuperSource"
  shows "negative_cycle (map lift_edge es @ sps) \<longleftrightarrow> negative_cycle es"
proof
  assume "negative_cycle es"
  then obtain a p where "walk es a p a" "cost_of p < 0"
    unfolding negative_cycle_def by blast
  then have "walk (map lift_edge es @ sps) (Node a) (map lift_edge p) (Node a)"
    "cost_of (map lift_edge p) < 0"
    by (simp_all add: walk_lift)
  then show "negative_cycle (map lift_edge es @ sps)"
    unfolding negative_cycle_def by blast
next
  assume "negative_cycle (map lift_edge es @ sps)"
  then obtain c q where q: "walk (map lift_edge es @ sps) c q c" "cost_of q < 0"
    unfolding negative_cycle_def by blast
  show "negative_cycle es"
  proof (cases c)
    case (Node a)
    then obtain p b where "c = Node b" "q = map lift_edge p" "walk es a p b"
      using walk_unlift [OF sps, of es a q c] q(1) by auto
    then show ?thesis
      using q(2) Node unfolding negative_cycle_def by auto
  next
    case SuperSource
    have "q \<noteq> []" using q(2) by auto
    then obtain e r where er: "q = e # r" by (cases q) auto
    have e: "e \<in> set (map lift_edge es @ sps)" "e_u e = SuperSource"
      and w: "walk (map lift_edge es @ sps) (e_v e) r c"
      using q(1) er SuperSource by simp_all
    have "e \<in> set sps" using e by (auto simp: lift_edge_def)
    then obtain n where n: "e_v e = Node n"
      using sps' by (cases "e_v e") auto
    then obtain p b where "c = Node b"
      using walk_unlift [OF sps, of es n r c] w by auto
    then show ?thesis using SuperSource by simp
  qed
qed


text \<open>
  On a graph whose edges join listed nodes, the detector answers exactly whether the graph
  has a negative cycle.
\<close>

lemma detect_iff:
  assumes ew: "edges_within nodes es"
  shows "detect_any_negative_cycle nodes es \<longleftrightarrow> negative_cycle es"
proof -
  let ?sps = "map (\<lambda>n. \<lparr>e_u = SuperSource, e_v = Node n, e_w = 0\<rparr>) nodes"
  let ?E = "map lift_edge es @ ?sps"
  let ?minit = "fmap_of_list (map (\<lambda>n. (Node n, Fin 0)) nodes)"
  let ?Dinit = "dget ?minit"
  let ?K = "length nodes - 1"
  let ?D = "(fold arelax ?E ^^ ?K) ?Dinit"
  let ?V = "Node ` set nodes"
  have det: "detect_any_negative_cycle nodes es \<longleftrightarrow> \<not> feasible ?E ?D"
    by (simp add: detect_any_negative_cycle_def Let_def detect_check_feasible dget_detect_loop)
  have D0: "?Dinit x = (if x \<in> ?V then Fin 0 else PInf)" for x
    by (simp add: dget_def fmlookup_of_list map_of_const)
  have sps: "\<forall>e \<in> set ?sps. e_u e = SuperSource" "\<forall>e \<in> set ?sps. e_v e \<noteq> SuperSource"
    by auto
  have cyc: "negative_cycle ?E \<longleftrightarrow> negative_cycle es"
    using negative_cycle_lift [OF sps] .
  have EV: "\<forall>e \<in> set ?E. e_v e \<in> ?V"
    using ew by (auto simp: edges_within_def lift_edge_def)
  show ?thesis
  proof
    assume "detect_any_negative_cycle nodes es"
    then have nf: "\<not> feasible ?E ?D" using det by simp
    show "negative_cycle es"
    proof (rule ccontr)
      assume "\<not> negative_cycle es"
      then have nn: "\<not> negative_cycle ?E" using cyc by simp
      have "card ?V \<le> length nodes"
        by (metis card_image_le card_length le_trans List.finite_set)
      then have "card ?V \<le> Suc ?K" by simp
      moreover have "\<forall>a. ?Dinit a \<noteq> PInf \<longrightarrow> a \<in> ?V" using D0 by auto
      ultimately have "feasible ?E ?D"
        using passes_feasible [where E = ?E and V = ?V and ?D0.0 = ?Dinit and K = ?K] nn EV by simp
      then show False using nf by simp
    qed
  next
    assume nc: "negative_cycle es"
    show "detect_any_negative_cycle nodes es"
    proof (rule ccontr)
      assume "\<not> detect_any_negative_cycle nodes es"
      then have f: "feasible ?E ?D" using det by simp
      then have f': "feasible (map lift_edge es) ?D" by (simp add: feasible_def)
      have "\<forall>e \<in> set (map lift_edge es). ?D (e_u e) \<noteq> PInf"
      proof
        fix e
        assume "e \<in> set (map lift_edge es)"
        then have "e_u e \<in> ?V" using ew by (auto simp: edges_within_def lift_edge_def)
        then have "?Dinit (e_u e) = Fin 0" using D0 by simp
        then have "ext_le (?D (e_u e)) (Fin 0)"
          using funpow_arelax_le [where L = ?E and k = ?K and D = ?Dinit and b = "e_u e"] by simp
        then show "?D (e_u e) \<noteq> PInf" by auto
      qed
      then have "\<not> negative_cycle (map lift_edge es)"
        using feasible_no_negative_cycle [OF f'] by blast
      moreover have "negative_cycle (map lift_edge es)"
        using nc negative_cycle_lift [of "[]" es] by simp
      ultimately show False by simp
    qed
  qed
qed

section \<open>Bellman-Ford\<close>

subsection \<open>The predecessor dict\<close>

lemma pred_get_fmupd [simp]: "pred_get (fmupd k v m) = (pred_get m)(k := v)"
  by (auto simp: pred_get_def fun_eq_iff)

lemma node_opt_Some: "x \<noteq> PyNone \<Longrightarrow> node_opt x = Some x"
  by (cases x) simp_all

lemma anc_trans: "anc m b c \<Longrightarrow> anc m a b \<Longrightarrow> anc m a c"
  by (induction rule: anc.induct) (auto intro: anc.intros)

lemma anc_fmupd:
  "anc (fmupd v (Some u) m) a b \<Longrightarrow> anc m a b \<or> (anc m a v \<and> anc m u b)"
proof (induction rule: anc.induct)
  case (anc_refl a)
  then show ?case by (simp add: anc.anc_refl)
next
  case (anc_step a b c)
  show ?case
  proof (cases "b = v")
    case True
    then have "c = u" using anc_step.hyps(2) by simp
    moreover have "anc m a v" using anc_step.IH True by auto
    ultimately show ?thesis by (auto intro: anc.anc_refl)
  next
    case False
    then have "pred_get m b = Some c" using anc_step.hyps(2) by simp
    then show ?thesis using anc_step.IH by (auto intro: anc.anc_step)
  qed
qed

text \<open>
  Following predecessors from \<open>a\<close> to \<open>b\<close> traces a walk of the graph from \<open>b\<close> to
  \<open>a\<close> that the distances account for.
\<close>

lemma anc_walk:
  assumes slack: "\<forall>b a. pred_get m b = Some a \<longrightarrow>
        (\<exists>e \<in> set E. e_u e = a \<and> e_v e = b \<and>
           (\<exists>x y. D a = Fin x \<and> D b = Fin y \<and> x + e_w e \<le> y))"
  shows "anc m a b \<Longrightarrow> D a = Fin x \<Longrightarrow>
           \<exists>p y. walk E b p a \<and> D b = Fin y \<and> y + cost_of p \<le> x"
proof (induction rule: anc.induct)
  case (anc_refl a)
  then show ?case by (intro exI [of _ "[]"]) simp
next
  case (anc_step a b c)
  obtain p y where p: "walk E b p a" "D b = Fin y" "y + cost_of p \<le> x"
    using anc_step.IH [OF anc_step.prems] by blast
  obtain e x' y' where e: "e \<in> set E" "e_u e = c" "e_v e = b"
    "D c = Fin x'" "D b = Fin y'" "x' + e_w e \<le> y'"
    using slack anc_step.hyps(2) by blast
  have "walk E c (e # p) a" using e p(1) by simp
  moreover have "x' + cost_of (e # p) \<le> x" using e p by simp
  ultimately show ?case using e(4) by blast
qed

subsection \<open>One relaxation keeps the invariant\<close>

lemma sound_src: "sound (src_init s) E D \<Longrightarrow> D b = Fin c \<Longrightarrow> \<exists>p. walk E s p b \<and> cost_of p = c"
  unfolding sound_def reaches_def src_init_def
  by (fastforce split: if_splits)

lemma bf_inv_relax:
  assumes nn: "\<not> negative_cycle E" and e: "e \<in> set E"
    and inv: "bf_inv E s distm predm" and rel: "relaxable e (dget distm)"
  shows "bf_inv E s (fmupd (e_v e) (ext_add (dget distm (e_u e)) (e_w e)) distm)
           (fmupd (e_v e) (Some (e_u e)) predm)"
proof -
  let ?D = "dget distm"
  let ?u = "e_u e" and ?v = "e_v e" and ?w = "e_w e"
  obtain x where x: "?D ?u = Fin x"
    using rel unfolding relaxable_def by (cases "?D ?u") auto
  have less: "ext_less (Fin (x + ?w)) (?D ?v)"
    using rel x unfolding relaxable_def by simp
  have Ds: "?D s = Fin 0" and ps: "pred_get predm s = None"
    and snd: "sound (src_init s) E ?D"
    and slack: "\<forall>b a. pred_get predm b = Some a \<longrightarrow>
        (\<exists>e \<in> set E. e_u e = a \<and> e_v e = b \<and>
           (\<exists>x y. ?D a = Fin x \<and> ?D b = Fin y \<and> x + e_w e \<le> y))"
    and root: "\<forall>b. ?D b \<noteq> PInf \<and> pred_get predm b = None \<longrightarrow> b = s"
    and acy: "acyclic_pred predm"
    using inv unfolding bf_inv_def by blast+
  have no_anc: "\<not> anc predm ?u ?v"
  proof
    assume "anc predm ?u ?v"
    then obtain p y where p: "walk E ?v p ?u" "?D ?v = Fin y" "y + cost_of p \<le> x"
      using anc_walk [OF slack _ x] by blast
    have "walk E ?v (p @ [e]) ?v" using p(1) e by (simp add: walk_snoc)
    moreover have "cost_of (p @ [e]) < 0" using p(2,3) less by simp
    ultimately show False using nn unfolding negative_cycle_def by blast
  qed
  then have uv: "?u \<noteq> ?v" by (auto intro: anc.anc_refl)
  have vs: "?v \<noteq> s"
  proof
    assume "?v = s"
    then have neg: "x + ?w < 0" using less Ds by simp
    obtain p where p: "walk E s p ?u" "cost_of p = x"
      using sound_src [OF snd x] by blast
    have "walk E s (p @ [e]) s" using p(1) e \<open>?v = s\<close> by (simp add: walk_snoc)
    moreover have "cost_of (p @ [e]) < 0" using p(2) neg by simp
    ultimately show False using nn unfolding negative_cycle_def by blast
  qed
  let ?distm' = "fmupd ?v (ext_add (?D ?u) ?w) distm"
  let ?predm' = "fmupd ?v (Some ?u) predm"
  have D': "dget ?distm' = arelax e ?D"
    using rel by (simp add: arelax_def)
  have D'v: "dget ?distm' = ?D(?v := Fin (x + ?w))"
    using x by simp
  have g1: "dget ?distm' s = Fin 0" using Ds vs by simp
  have g2: "pred_get ?predm' s = None" using ps vs by simp
  have g3: "sound (src_init s) E (dget ?distm')"
    unfolding D' using snd e by (rule sound_arelax)
  have g4: "\<forall>b a. pred_get ?predm' b = Some a \<longrightarrow>
        (\<exists>e' \<in> set E. e_u e' = a \<and> e_v e' = b \<and>
           (\<exists>x' y'. dget ?distm' a = Fin x' \<and> dget ?distm' b = Fin y' \<and> x' + e_w e' \<le> y'))"
  proof (intro allI impI)
    fix b a
    assume ba: "pred_get ?predm' b = Some a"
    show "\<exists>e' \<in> set E. e_u e' = a \<and> e_v e' = b \<and>
           (\<exists>x' y'. dget ?distm' a = Fin x' \<and> dget ?distm' b = Fin y' \<and> x' + e_w e' \<le> y')"
    proof (cases "b = ?v")
      case True
      then have "a = ?u" using ba by simp
      then show ?thesis
        using True e uv x unfolding D'v by (intro bexI [of _ e]) auto
    next
      case False
      then have "pred_get predm b = Some a" using ba by simp
      then obtain e' x' y' where e': "e' \<in> set E" "e_u e' = a" "e_v e' = b"
        "?D a = Fin x'" "?D b = Fin y'" "x' + e_w e' \<le> y'"
        using slack by blast
      show ?thesis
      proof (cases "a = ?v")
        case True
        then have "x + ?w < x'" using less e'(4) by simp
        then show ?thesis
          using e' True False unfolding D'v by (intro bexI [of _ e']) auto
      next
        case aF: False
        then show ?thesis
          using e' False unfolding D'v by (intro bexI [of _ e']) auto
      qed
    qed
  qed
  have g5: "\<forall>b. dget ?distm' b \<noteq> PInf \<and> pred_get ?predm' b = None \<longrightarrow> b = s"
    using root unfolding D'v by (auto split: if_splits)
  have g6: "acyclic_pred ?predm'"
    unfolding acyclic_pred_def
  proof (intro allI impI notI)
    fix a b
    assume ab: "pred_get ?predm' a = Some b" and cyc: "anc ?predm' b a"
    from anc_fmupd [OF cyc]
    have alt: "anc predm b a \<or> (anc predm b ?v \<and> anc predm ?u a)" .
    show False
    proof (cases "a = ?v")
      case True
      then have "b = ?u" using ab by simp
      then show False using alt True no_anc by auto
    next
      case False
      then have old: "pred_get predm a = Some b" using ab by simp
      then have "\<not> anc predm b a" using acy unfolding acyclic_pred_def by blast
      then have "anc predm b ?v" "anc predm ?u a" using alt by auto
      then have "anc predm ?u ?v"
        using anc_trans [of predm b ?v ?u] anc.anc_step [of predm ?u a b] old by blast
      then show False using no_anc by simp
    qed
  qed
  show ?thesis
    unfolding bf_inv_def by (intro conjI g1 g2 g3 g4 g5 g6)
qed

text \<open>Whatever is stored as the predecessor, the source keeps distance 0 and no predecessor.\<close>

lemma bf_inv0_relax:
  assumes nn: "\<not> negative_cycle E" and e: "e \<in> set E"
    and inv: "bf_inv0 E s distm predm" and rel: "relaxable e (dget distm)"
  shows "bf_inv0 E s (fmupd (e_v e) (ext_add (dget distm (e_u e)) (e_w e)) distm)
           (fmupd (e_v e) p predm)"
proof -
  let ?D = "dget distm"
  obtain x where x: "?D (e_u e) = Fin x"
    using rel unfolding relaxable_def by (cases "?D (e_u e)") auto
  have less: "ext_less (Fin (x + e_w e)) (?D (e_v e))"
    using rel x unfolding relaxable_def by simp
  have Ds: "?D s = Fin 0" and ps: "pred_get predm s = None"
    and snd: "sound (src_init s) E ?D"
    using inv unfolding bf_inv0_def by blast+
  have vs: "e_v e \<noteq> s"
  proof
    assume "e_v e = s"
    then have neg: "x + e_w e < 0" using less Ds by simp
    obtain q where q: "walk E s q (e_u e)" "cost_of q = x"
      using sound_src [OF snd x] by blast
    have "walk E s (q @ [e]) s" using q(1) e \<open>e_v e = s\<close> by (simp add: walk_snoc)
    moreover have "cost_of (q @ [e]) < 0" using q(2) neg by simp
    ultimately show False using nn unfolding negative_cycle_def by blast
  qed
  have "dget (fmupd (e_v e) (ext_add (?D (e_u e)) (e_w e)) distm) = arelax e ?D"
    using rel by (simp add: arelax_def)
  then have "sound (src_init s) E (dget (fmupd (e_v e) (ext_add (?D (e_u e)) (e_w e)) distm))"
    using sound_arelax [OF snd e] by simp
  then show ?thesis
    unfolding bf_inv0_def using Ds ps vs by simp
qed

subsection \<open>The loops\<close>

lemma relax_edge_run:
  assumes "e_u e \<in> fmdom' distm" and "e_v e \<in> fmdom' distm"
  shows "relax_edge e (distm, predm, ch) =
           Inr (if relaxable e (dget distm)
                then (fmupd (e_v e) (ext_add (dget distm (e_u e)) (e_w e)) distm,
                      fmupd (e_v e) (node_opt (e_u e)) predm, True)
                else (distm, predm, ch))"
proof -
  obtain du dv where l: "fmlookup distm (e_u e) = Some du" "fmlookup distm (e_v e) = Some dv"
    using assms unfolding fmlookup_dom'_iff by blast
  then show ?thesis
    by (simp add: relax_edge_def relaxable_def dget_def)
qed

text \<open>
  A pass over edges of the graph whose endpoints are keys: it does not raise, keeps the
  keys and every property \<open>I\<close> of the two dicts that one relaxation keeps, computes the
  abstract pass, and reports no change only when nothing could be relaxed.
\<close>

lemma relax_pass_run:
  assumes step: "\<And>e distm predm. e \<in> set E \<Longrightarrow> I distm predm \<Longrightarrow> relaxable e (dget distm) \<Longrightarrow>
      I (fmupd (e_v e) (ext_add (dget distm (e_u e)) (e_w e)) distm)
        (fmupd (e_v e) (node_opt (e_u e)) predm)"
  shows "set L \<subseteq> set E \<Longrightarrow> \<forall>e \<in> set L. e_u e \<in> fmdom' distm \<and> e_v e \<in> fmdom' distm \<Longrightarrow>
         I distm predm \<Longrightarrow>
         \<exists>distm' predm' ch'. relax_pass L (distm, predm, ch) = Inr (distm', predm', ch')
           \<and> fmdom' distm' = fmdom' distm \<and> I distm' predm'
           \<and> dget distm' = fold arelax L (dget distm)
           \<and> (ch \<longrightarrow> ch')
           \<and> (\<not> ch' \<longrightarrow> feasible L (dget distm) \<and> distm' = distm \<and> predm' = predm)"
proof (induction L arbitrary: distm predm ch)
  case Nil
  then show ?case by (simp add: feasible_def)
next
  case (Cons e L)
  have eE: "e \<in> set E" and LE: "set L \<subseteq> set E" using Cons.prems(1) by simp_all
  have ek: "e_u e \<in> fmdom' distm" "e_v e \<in> fmdom' distm" using Cons.prems(2) by simp_all
  show ?case
  proof (cases "relaxable e (dget distm)")
    case True
    let ?d1 = "fmupd (e_v e) (ext_add (dget distm (e_u e)) (e_w e)) distm"
    let ?p1 = "fmupd (e_v e) (node_opt (e_u e)) predm"
    have run: "relax_edge e (distm, predm, ch) = Inr (?d1, ?p1, True)"
      using relax_edge_run [OF ek] True by simp
    have dom1: "fmdom' ?d1 = fmdom' distm" using ek by auto
    have inv1: "I ?d1 ?p1"
      using step [OF eE Cons.prems(3) True] .
    have keys1: "\<forall>e \<in> set L. e_u e \<in> fmdom' ?d1 \<and> e_v e \<in> fmdom' ?d1"
      using Cons.prems(2) dom1 by simp
    obtain distm' predm' ch' where r:
      "relax_pass L (?d1, ?p1, True) = Inr (distm', predm', ch')"
      "fmdom' distm' = fmdom' ?d1" "I distm' predm'"
      "dget distm' = fold arelax L (dget ?d1)" "True \<longrightarrow> ch'"
      using Cons.IH [OF LE keys1 inv1, of True] by blast
    have "dget ?d1 = arelax e (dget distm)" using True by (simp add: arelax_def)
    then show ?thesis
      using run r dom1
      by (intro exI [of _ distm'] exI [of _ predm'] exI [of _ True]) simp
  next
    case False
    have run: "relax_edge e (distm, predm, ch) = Inr (distm, predm, ch)"
      using relax_edge_run [OF ek] False by simp
    have keys1: "\<forall>e \<in> set L. e_u e \<in> fmdom' distm \<and> e_v e \<in> fmdom' distm"
      using Cons.prems(2) by simp
    obtain distm' predm' ch' where r:
      "relax_pass L (distm, predm, ch) = Inr (distm', predm', ch')"
      "fmdom' distm' = fmdom' distm" "I distm' predm'"
      "dget distm' = fold arelax L (dget distm)" "ch \<longrightarrow> ch'"
      "\<not> ch' \<longrightarrow> feasible L (dget distm) \<and> distm' = distm \<and> predm' = predm"
      using Cons.IH [OF LE keys1 Cons.prems(3), of ch] by blast
    have "arelax e (dget distm) = dget distm" using False by (simp add: arelax_def)
    then show ?thesis
      using run r False by (simp add: feasible_def)
  qed
qed

lemma bf_loop_run:
  assumes step: "\<And>e distm predm. e \<in> set E \<Longrightarrow> I distm predm \<Longrightarrow> relaxable e (dget distm) \<Longrightarrow>
      I (fmupd (e_v e) (ext_add (dget distm (e_u e)) (e_w e)) distm)
        (fmupd (e_v e) (node_opt (e_u e)) predm)"
  shows "\<forall>e \<in> set E. e_u e \<in> fmdom' distm \<and> e_v e \<in> fmdom' distm \<Longrightarrow>
         I distm predm \<Longrightarrow>
         \<exists>distm' predm'. bf_loop k E (distm, predm) = Inr (distm', predm')
           \<and> fmdom' distm' = fmdom' distm \<and> I distm' predm'
           \<and> dget distm' = (fold arelax E ^^ k) (dget distm)"
proof (induction k arbitrary: distm predm)
  case 0
  then show ?case by simp
next
  case (Suc k)
  obtain d1 p1 ch where r:
    "relax_pass E (distm, predm, False) = Inr (d1, p1, ch)"
    "fmdom' d1 = fmdom' distm" "I d1 p1"
    "dget d1 = fold arelax E (dget distm)"
    "\<not> ch \<longrightarrow> feasible E (dget distm) \<and> d1 = distm \<and> p1 = predm"
    using relax_pass_run [of E I, OF step subset_refl Suc.prems(1) Suc.prems(2), of False]
    by blast
  show ?case
  proof (cases ch)
    case False
    then have f: "feasible E (dget distm)" "d1 = distm" "p1 = predm" using r(5) by simp_all
    have "(fold arelax E ^^ Suc k) (dget distm) = dget distm"
      using funpow_feasible [OF f(1)] .
    then show ?thesis
      using r(1) False f Suc.prems(2) by simp
  next
    case True
    have keys1: "\<forall>e \<in> set E. e_u e \<in> fmdom' d1 \<and> e_v e \<in> fmdom' d1"
      using Suc.prems(1) r(2) by simp
    obtain distm' predm' where l:
      "bf_loop k E (d1, p1) = Inr (distm', predm')"
      "fmdom' distm' = fmdom' d1" "I distm' predm'"
      "dget distm' = (fold arelax E ^^ k) (dget d1)"
      using Suc.IH [OF keys1 r(3)] by blast
    have "(fold arelax E ^^ k) (dget d1) = (fold arelax E ^^ Suc k) (dget distm)"
      using r(4) by (simp add: funpow_swap1)
    then show ?thesis
      using r(1) True l r(2) by simp
  qed
qed

lemma bf_check_run:
  "\<forall>e \<in> set L. e_u e \<in> fmdom' distm \<and> e_v e \<in> fmdom' distm \<Longrightarrow>
     bf_check L distm = Inr (\<not> feasible L (dget distm))"
proof (induction L)
  case Nil
  then show ?case by (simp add: feasible_def)
next
  case (Cons e L)
  then have "e_u e \<in> fmdom' distm" "e_v e \<in> fmdom' distm" by simp_all
  then obtain du dv where l: "fmlookup distm (e_u e) = Some du" "fmlookup distm (e_v e) = Some dv"
    unfolding fmlookup_dom'_iff by blast
  then have "relaxable e (dget distm) \<longleftrightarrow> ext_less (ext_add du (e_w e)) dv"
    by (simp add: relaxable_def dget_def)
  then show ?case using Cons l by (simp add: feasible_def)
qed

subsection \<open>The whole function\<close>

lemma fmdom'_const_list: "fmdom' (fmap_of_list (map (\<lambda>n. (n, c)) ns)) = set ns"
  by (auto simp: fmlookup_dom'_iff fmlookup_of_list map_of_const split: if_splits)

lemma dget_inf_list: "dget (fmap_of_list (map (\<lambda>n. (n, PInf)) ns)) = (\<lambda>n. PInf)"
  by (auto simp: dget_def fmlookup_of_list map_of_const fun_eq_iff)

lemma pred_get_none_list: "pred_get (fmap_of_list (map (\<lambda>n. (n, None)) ns)) b = None"
  by (simp add: pred_get_def fmlookup_of_list map_of_const)

lemma bf_inv_init:
  "bf_inv E s (fmupd s (Fin 0) (fmap_of_list (map (\<lambda>n. (n, PInf)) ns)))
     (fmap_of_list (map (\<lambda>n. (n, None)) ns))"
proof -
  have D: "dget (fmupd s (Fin 0) (fmap_of_list (map (\<lambda>n. (n, PInf)) ns))) = src_init s"
    by (simp add: dget_inf_list src_init_def)
  show ?thesis
    unfolding bf_inv_def D
    by (auto simp: pred_get_none_list acyclic_pred_def sound_init src_init_def)
qed

lemma bf_inv0_init:
  "bf_inv0 E s (fmupd s (Fin 0) (fmap_of_list (map (\<lambda>n. (n, PInf)) ns)))
     (fmap_of_list (map (\<lambda>n. (n, None)) ns))"
proof -
  have D: "dget (fmupd s (Fin 0) (fmap_of_list (map (\<lambda>n. (n, PInf)) ns))) = src_init s"
    by (simp add: dget_inf_list src_init_def)
  show ?thesis
    unfolding bf_inv0_def D
    by (auto simp: pred_get_none_list sound_init src_init_def)
qed

text \<open>
  On a graph without a negative cycle whose edges join listed nodes, from a listed source,
  \<open>bellman_ford\<close> does not raise and reports no negative cycle; its distances are those of
  the relaxation passes and admit no further relaxation; its dicts have every property
  \<open>I\<close> that the initial dicts have and that one relaxation keeps.
\<close>

lemma bellman_ford_run:
  assumes nn: "\<not> negative_cycle es" and ew: "edges_within nodes es" and s: "s \<in> set nodes"
    and step: "\<And>e distm predm. e \<in> set es \<Longrightarrow> I distm predm \<Longrightarrow> relaxable e (dget distm) \<Longrightarrow>
      I (fmupd (e_v e) (ext_add (dget distm (e_u e)) (e_w e)) distm)
        (fmupd (e_v e) (node_opt (e_u e)) predm)"
    and init: "I (fmupd s (Fin 0) (fmap_of_list (map (\<lambda>n. (n, PInf)) nodes)))
                 (fmap_of_list (map (\<lambda>n. (n, None)) nodes))"
  shows "\<exists>distm predm. bellman_ford nodes es s = Inr (distm, predm, False)
           \<and> I distm predm \<and> feasible es (dget distm)
           \<and> fmdom' distm = set nodes
           \<and> dget distm = (fold arelax es ^^ (length nodes - 1)) (src_init s)"
proof -
  let ?d = "fmupd s (Fin 0) (fmap_of_list (map (\<lambda>n. (n, PInf)) nodes))"
  let ?p = "fmap_of_list (map (\<lambda>n. (n, None)) nodes) :: ('a py, 'a py option) fmap"
  have dom: "fmdom' ?d = set nodes"
    using s by (auto simp: fmdom'_const_list)
  have keys: "\<forall>e \<in> set es. e_u e \<in> fmdom' ?d \<and> e_v e \<in> fmdom' ?d"
    using ew unfolding dom edges_within_def by blast
  have D: "dget ?d = src_init s"
    by (simp add: dget_inf_list src_init_def)
  obtain distm predm where l:
    "bf_loop (length nodes - 1) es (?d, ?p) = Inr (distm, predm)"
    "fmdom' distm = fmdom' ?d" "I distm predm"
    "dget distm = (fold arelax es ^^ (length nodes - 1)) (dget ?d)"
    using bf_loop_run [of es I, OF step keys init, of "length nodes - 1"] by blast
  have "card (set nodes) \<le> Suc (length nodes - 1)"
    using card_length [of nodes] by simp
  moreover have "\<forall>e \<in> set es. e_v e \<in> set nodes"
    using ew unfolding edges_within_def by blast
  moreover have "\<forall>a. src_init s a \<noteq> PInf \<longrightarrow> a \<in> set nodes"
    using s by (auto simp: src_init_def)
  ultimately have "feasible es ((fold arelax es ^^ (length nodes - 1)) (src_init s))"
    using passes_feasible [OF nn, of "set nodes" "src_init s" "length nodes - 1"] by simp
  then have f: "feasible es (dget distm)" using l(4) D by simp
  have "\<forall>e \<in> set es. e_u e \<in> fmdom' distm \<and> e_v e \<in> fmdom' distm"
    using keys l(2) by simp
  then have "bf_check es distm = Inr False"
    using bf_check_run [of es distm] f by simp
  then have "bellman_ford nodes es s = Inr (distm, predm, False)"
    using l(1) by (simp add: bellman_ford_def)
  then show ?thesis
    using l f dom D by auto
qed

text \<open>The distances alone; the source keeps distance 0 and no predecessor.\<close>

lemma bellman_ford_source:
  assumes nn: "\<not> negative_cycle es" and ew: "edges_within nodes es" and s: "s \<in> set nodes"
  shows "\<exists>distm predm. bellman_ford nodes es s = Inr (distm, predm, False)
           \<and> bf_inv0 es s distm predm \<and> feasible es (dget distm)
           \<and> fmdom' distm = set nodes
           \<and> dget distm = (fold arelax es ^^ (length nodes - 1)) (src_init s)"
  using bellman_ford_run [of es nodes s "bf_inv0 es s", OF nn ew s bf_inv0_relax [OF nn]
          bf_inv0_init]
  by blast

text \<open>When \<open>None\<close> is not a node, every stored predecessor is a node, and the full invariant holds.\<close>

lemma bellman_ford_pred:
  assumes nn: "\<not> negative_cycle es" and ew: "edges_within nodes es" and s: "s \<in> set nodes"
    and none: "PyNone \<notin> set nodes"
  shows "\<exists>distm predm. bellman_ford nodes es s = Inr (distm, predm, False)
           \<and> bf_inv es s distm predm \<and> feasible es (dget distm)
           \<and> fmdom' distm = set nodes"
proof -
  have step: "bf_inv es s (fmupd (e_v e) (ext_add (dget distm (e_u e)) (e_w e)) distm)
                (fmupd (e_v e) (node_opt (e_u e)) predm)"
    if e: "e \<in> set es" and inv: "bf_inv es s distm predm" and rel: "relaxable e (dget distm)"
    for e distm predm
  proof -
    have "e_u e \<in> set nodes" using ew e unfolding edges_within_def by blast
    then have "e_u e \<noteq> PyNone" using none by auto
    then have "node_opt (e_u e) = Some (e_u e)" by (rule node_opt_Some)
    then show ?thesis using bf_inv_relax [OF nn e inv rel] by simp
  qed
  show ?thesis
    using bellman_ford_run [of es nodes s "bf_inv es s", OF nn ew s step bf_inv_init]
    by blast
qed

section \<open>Exact weights\<close>

text \<open>
  With whole-number weights of magnitude at most \<open>W\<close>, one relaxation moves the bound on
  the distances by \<open>W\<close>, a pass by \<open>W\<close> times the number of edges.
\<close>

lemma whole_within_mono: "whole_within B x \<Longrightarrow> B \<le> B' \<Longrightarrow> whole_within B' x"
  by (cases x) (auto simp: whole_within_def)

lemma whole_within_add:
  assumes "whole_within B x" and "w \<in> \<int>" and "\<bar>w\<bar> \<le> W"
  shows "whole_within (B + W) (ext_add x w)"
proof (cases x)
  case PInf
  then show ?thesis by (simp add: whole_within_def)
next
  case (Fin a)
  then have a: "a \<in> \<int>" "\<bar>a\<bar> \<le> B" using assms(1) by (simp_all add: whole_within_def)
  have "a + w \<in> \<int>" using a(1) assms(2) by (rule Ints_add)
  moreover have "\<bar>a + w\<bar> \<le> B + W" using a(2) assms(3) by linarith
  ultimately show ?thesis using Fin by (simp add: whole_within_def)
qed

lemma arelax_whole:
  assumes D: "\<forall>v. whole_within B (D v)" and w: "e_w e \<in> \<int>" "\<bar>e_w e\<bar> \<le> W"
  shows "\<forall>v. whole_within (B + W) (arelax e D v)"
proof
  fix v
  have W0: "0 \<le> W" using w(2) by linarith
  show "whole_within (B + W) (arelax e D v)"
  proof (cases "relaxable e D \<and> v = e_v e")
    case True
    then have "arelax e D v = ext_add (D (e_u e)) (e_w e)" by (simp add: arelax_def)
    then show ?thesis using whole_within_add [OF D [rule_format] w] by simp
  next
    case False
    then have "arelax e D v = D v" by (auto simp: arelax_def)
    then show ?thesis using whole_within_mono [OF D [rule_format, of v], of "B + W"] W0 by simp
  qed
qed

lemma fold_arelax_whole:
  "\<forall>v. whole_within B (D v) \<Longrightarrow> \<forall>e \<in> set L. e_w e \<in> \<int> \<and> \<bar>e_w e\<bar> \<le> W \<Longrightarrow>
     \<forall>v. whole_within (B + real (length L) * W) (fold arelax L D v)"
proof (induction L arbitrary: B D)
  case Nil
  then show ?case by simp
next
  case (Cons e L)
  have "\<forall>v. whole_within (B + W) (arelax e D v)"
    using arelax_whole [OF Cons.prems(1)] Cons.prems(2) by simp
  then have "\<forall>v. whole_within (B + W + real (length L) * W) (fold arelax L (arelax e D) v)"
    using Cons.IH Cons.prems(2) by simp
  moreover have "B + W + real (length L) * W = B + real (length (e # L)) * W"
    by (simp add: algebra_simps)
  ultimately show ?case by simp
qed

lemma funpow_arelax_whole:
  "\<forall>v. whole_within B (D v) \<Longrightarrow> \<forall>e \<in> set L. e_w e \<in> \<int> \<and> \<bar>e_w e\<bar> \<le> W \<Longrightarrow>
     \<forall>v. whole_within (B + real k * (real (length L) * W)) ((fold arelax L ^^ k) D v)"
proof (induction k)
  case 0
  then show ?case by simp
next
  case (Suc k)
  have "\<forall>v. whole_within (B + real k * (real (length L) * W)) ((fold arelax L ^^ k) D v)"
    using Suc by simp
  then have "\<forall>v. whole_within (B + real k * (real (length L) * W) + real (length L) * W)
               (fold arelax L ((fold arelax L ^^ k) D) v)"
    using fold_arelax_whole Suc.prems(2) by blast
  moreover have "B + real k * (real (length L) * W) + real (length L) * W
                   = B + real (Suc k) * (real (length L) * W)"
    by (simp add: algebra_simps)
  ultimately show ?case by simp
qed


lemma passes_whole:
  assumes D: "\<forall>v. whole_within 0 (D v)"
    and L: "\<forall>e \<in> set L. e_w e \<in> \<int> \<and> \<bar>e_w e\<bar> \<le> W"
    and W: "0 \<le> W" and B: "(real k * real (length L) + 1) * W \<le> B"
  shows "\<forall>v. whole_within B ((fold arelax L ^^ k) D v)"
    and "\<forall>e \<in> set L. whole_within B (ext_add ((fold arelax L ^^ k) D (e_u e)) (e_w e))"
proof -
  let ?b = "real k * (real (length L) * W)"
  have p: "\<forall>v. whole_within ?b ((fold arelax L ^^ k) D v)"
    using funpow_arelax_whole [OF D L, of k] by simp
  have le: "?b + W \<le> B" using B by (simp add: algebra_simps)
  then have le0: "?b \<le> B" using W by linarith
  show "\<forall>v. whole_within B ((fold arelax L ^^ k) D v)"
    using p whole_within_mono le0 by blast
  show "\<forall>e \<in> set L. whole_within B (ext_add ((fold arelax L ^^ k) D (e_u e)) (e_w e))"
  proof
    fix e assume e: "e \<in> set L"
    have "whole_within (?b + W) (ext_add ((fold arelax L ^^ k) D (e_u e)) (e_w e))"
      using whole_within_add [OF p [rule_format]] L e by blast
    then show "whole_within B (ext_add ((fold arelax L ^^ k) D (e_u e)) (e_w e))"
      using whole_within_mono le by blast
  qed
qed

lemma mult_div_same: "x \<noteq> 0 \<Longrightarrow> x * (c / x) = (c :: real)"
  by simp

lemma exact_weights_bound:
  assumes ex: "exact_weights nodes es" and n: "nodes \<noteq> []"
  defines "W \<equiv> 2 ^ 53 / real (length nodes * (length es + length nodes))"
  shows "0 \<le> W" and "\<forall>e \<in> set es. e_w e \<in> \<int> \<and> \<bar>e_w e\<bar> \<le> W"
    and "k < length nodes \<Longrightarrow> m \<le> length es + length nodes \<Longrightarrow>
           (real k * real m + 1) * W \<le> 2 ^ 53"
proof -
  let ?N = "real (length nodes * (length es + length nodes))"
  have "0 < length nodes * (length es + length nodes)" using n by simp
  then have N: "0 < ?N" by (simp only: of_nat_0_less_iff)
  show W0: "0 \<le> W" using N unfolding W_def by simp
  show "\<forall>e \<in> set es. e_w e \<in> \<int> \<and> \<bar>e_w e\<bar> \<le> W"
    using ex N unfolding exact_weights_def W_def by (simp add: pos_le_divide_eq)
  show "(real k * real m + 1) * W \<le> 2 ^ 53"
    if k: "k < length nodes" and m: "m \<le> length es + length nodes"
  proof -
    have "k * m \<le> k * (length es + length nodes)" using m by simp
    moreover have "1 \<le> length es + length nodes" using n by (cases nodes) simp_all
    ultimately have "k * m + 1 \<le> k * (length es + length nodes) + (length es + length nodes)"
      by (rule add_mono)
    also have "\<dots> = Suc k * (length es + length nodes)" by simp
    also have "\<dots> \<le> length nodes * (length es + length nodes)"
      using k by (intro mult_right_mono) simp_all
    finally have "real (k * m + 1) \<le> ?N" by (simp only: of_nat_le_iff)
    then have "real (k * m + 1) * W \<le> ?N * W" using W0 by (rule mult_right_mono)
    moreover have "?N \<noteq> 0" using N by linarith
    then have "?N * W = 2 ^ 53" unfolding W_def by (rule mult_div_same)
    moreover have "real (k * m + 1) = real k * real m + 1" by simp
    ultimately show ?thesis by (simp only:)
  qed
qed

text \<open>
  On exact weights every distance the detector holds after its passes, and every sum its
  final check compares, is a whole number of magnitude at most 2 ** 53.
\<close>

lemma detector_whole:
  assumes ex: "exact_weights nodes es"
  defines "L \<equiv> map lift_edge es @ map (\<lambda>n. \<lparr>e_u = SuperSource, e_v = Node n, e_w = 0\<rparr>) nodes"
  defines "distm \<equiv> detect_loop (length nodes - 1) L (fmap_of_list (map (\<lambda>n. (Node n, Fin 0)) nodes))"
  shows "\<forall>v. whole_within (2 ^ 53) (dget distm v)"
    and "\<forall>e \<in> set L. whole_within (2 ^ 53) (ext_add (dget distm (e_u e)) (e_w e))"
proof -
  let ?D = "dget (fmap_of_list (map (\<lambda>n. (Node n, Fin 0 :: ext)) nodes))"
  have D: "\<forall>v. whole_within 0 (?D v)"
    by (auto simp: dget_def whole_within_def fmlookup_of_list map_of_const split: option.splits)
  have dm: "dget distm = (fold arelax L ^^ (length nodes - 1)) ?D"
    unfolding distm_def by (rule dget_detect_loop)
  have both: "(\<forall>v. whole_within (2 ^ 53) (dget distm v))
      \<and> (\<forall>e \<in> set L. whole_within (2 ^ 53) (ext_add (dget distm (e_u e)) (e_w e)))"
  proof (cases "nodes = []")
    case True
    then have "dget distm = ?D" using dm by simp
    moreover have "\<forall>v. ?D v = PInf" using True by (simp add: dget_def)
    ultimately show ?thesis by (simp add: whole_within_def)
  next
    case False
    let ?W = "2 ^ 53 / real (length nodes * (length es + length nodes))"
    note b = exact_weights_bound [OF ex False]
    have Lw: "\<forall>e \<in> set L. e_w e \<in> \<int> \<and> \<bar>e_w e\<bar> \<le> ?W"
      using b(1) b(2) unfolding L_def by (auto simp: lift_edge_def)
    have len: "length L = length es + length nodes" unfolding L_def by simp
    have B: "(real (length nodes - 1) * real (length L) + 1) * ?W \<le> 2 ^ 53"
      using b(3) [of "length nodes - 1" "length L"] False len by simp
    have "\<forall>v. whole_within (2 ^ 53) (dget distm v)"
      unfolding dm by (rule passes_whole(1) [OF D Lw b(1) B])
    moreover have "\<forall>e \<in> set L. whole_within (2 ^ 53) (ext_add (dget distm (e_u e)) (e_w e))"
      unfolding dm by (rule passes_whole(2) [OF D Lw b(1) B])
    ultimately show ?thesis by blast
  qed
  show "\<forall>v. whole_within (2 ^ 53) (dget distm v)"
    using both by blast
  show "\<forall>e \<in> set L. whole_within (2 ^ 53) (ext_add (dget distm (e_u e)) (e_w e))"
    using both by blast
qed

text \<open>The same for the distances \<open>bellman_ford\<close> returns and the sums of its final check.\<close>

lemma bellman_ford_whole:
  assumes nn: "\<not> negative_cycle es" and ew: "edges_within nodes es" and s: "s \<in> set nodes"
    and ex: "exact_weights nodes es"
  shows "\<exists>distm predm. bellman_ford nodes es s = Inr (distm, predm, False)
           \<and> (\<forall>v. whole_within (2 ^ 53) (dget distm v))
           \<and> (\<forall>e \<in> set es. whole_within (2 ^ 53) (ext_add (dget distm (e_u e)) (e_w e)))"
proof -
  obtain distm predm where r: "bellman_ford nodes es s = Inr (distm, predm, False)"
    and dm: "dget distm = (fold arelax es ^^ (length nodes - 1)) (src_init s)"
    using bellman_ford_source [OF nn ew s] by blast
  have n: "nodes \<noteq> []" using s by auto
  let ?W = "2 ^ 53 / real (length nodes * (length es + length nodes))"
  note b = exact_weights_bound [OF ex n]
  have D: "\<forall>v. whole_within 0 (src_init s v)"
    by (simp add: src_init_def whole_within_def)
  have B: "(real (length nodes - 1) * real (length es) + 1) * ?W \<le> 2 ^ 53"
    using b(3) [of "length nodes - 1" "length es"] n by simp
  have "\<forall>v. whole_within (2 ^ 53) (dget distm v)"
    unfolding dm by (rule passes_whole(1) [OF D b(2) b(1) B])
  moreover have "\<forall>e \<in> set es. whole_within (2 ^ 53) (ext_add (dget distm (e_u e)) (e_w e))"
    unfolding dm by (rule passes_whole(2) [OF D b(2) b(1) B])
  ultimately show ?thesis using r by blast
qed

section \<open>Path reconstruction\<close>

text \<open>
  Over an acyclic predecessor dict whose chains from \<open>t\<close> can only end in \<open>s\<close>, the loop
  never meets a visited node; it appends the chain from the current node to \<open>s\<close>.
\<close>

lemma reconstruct_ok:
  "cur = Some c \<Longrightarrow> acyclic_pred m \<Longrightarrow>
   \<forall>x. anc m t x \<and> pred_get m x = None \<longrightarrow> x = s \<Longrightarrow>
   anc m t c \<Longrightarrow> \<forall>x \<in> visited. \<exists>y. pred_get m x = Some y \<and> anc m y c \<Longrightarrow>
   \<exists>p. reconstruct m cur visited pth = Some (pth @ p) \<and> p \<noteq> [] \<and> hd p = c \<and> last p = s"
proof (induction m cur visited pth arbitrary: c rule: reconstruct.induct)
  case (1 m cur visited pth)
  have cur: "cur = Some c" by fact
  have acy: "acyclic_pred m" by fact
  have nv: "c \<notin> visited"
  proof
    assume "c \<in> visited"
    then obtain y where "pred_get m c = Some y" "anc m y c" using "1.prems"(5) by blast
    then show False using acy unfolding acyclic_pred_def by blast
  qed
  show ?case
  proof (cases "pred_get m c")
    case None
    then have "c = s" using "1.prems"(3,4) by blast
    moreover have "reconstruct m cur visited pth = Some (pth @ [c])"
      using cur nv None by (simp add: reconstruct.simps [of m "Some c"] reconstruct.simps [of m None])
    ultimately show ?thesis by simp
  next
    case (Some c')
    have a': "anc m t c'" using "1.prems"(4) Some by (rule anc.anc_step)
    have v': "\<forall>x \<in> insert c visited. \<exists>y. pred_get m x = Some y \<and> anc m y c'"
    proof
      fix x
      assume "x \<in> insert c visited"
      then show "\<exists>y. pred_get m x = Some y \<and> anc m y c'"
      proof
        assume "x = c"
        then show ?thesis using Some by (auto intro: anc.anc_refl)
      next
        assume "x \<in> visited"
        then obtain y where "pred_get m x = Some y" "anc m y c" using "1.prems"(5) by blast
        then show ?thesis using Some by (auto intro: anc.anc_step)
      qed
    qed
    obtain p where p: "reconstruct m (pred_get m c) (insert c visited) (pth @ [c])
                         = Some ((pth @ [c]) @ p)" "p \<noteq> []" "hd p = c'" "last p = s"
      using "1.IH" [OF cur nv Some acy "1.prems"(3) a' v'] by blast
    have "reconstruct m cur visited pth = Some (pth @ (c # p))"
      using cur nv p(1) by (simp add: reconstruct.simps [of m "Some c"])
    then show ?thesis using p(2,4) by (intro exI [of _ "c # p"]) simp
  qed
qed

section \<open>Shortest paths\<close>

lemma shortest_path_run:
  assumes nn: "\<not> negative_cycle es" and ew: "edges_within nodes es" and s: "s \<in> set nodes"
    and none: "PyNone \<notin> set nodes"
  shows "\<exists>distm predm. bellman_ford nodes es s = Inr (distm, predm, False)
           \<and> dget distm s = Fin 0
           \<and> (dget distm t = PInf \<longrightarrow>
                shortest_path nodes es s t = Inr ([], PInf, ''unreachable''))
           \<and> (dget distm t \<noteq> PInf \<longrightarrow>
                (\<exists>p. shortest_path nodes es s t = Inr (p, dget distm t, [])
                   \<and> p \<noteq> [] \<and> hd p = s \<and> last p = t))"
proof -
  obtain distm predm where bf: "bellman_ford nodes es s = Inr (distm, predm, False)"
    "bf_inv es s distm predm" "fmdom' distm = set nodes"
    using bellman_ford_pred [OF nn ew s none] by blast
  let ?D = "dget distm"
  have Ds: "?D s = Fin 0"
    and slack: "\<forall>b a. pred_get predm b = Some a \<longrightarrow>
        (\<exists>e \<in> set es. e_u e = a \<and> e_v e = b \<and>
           (\<exists>x y. ?D a = Fin x \<and> ?D b = Fin y \<and> x + e_w e \<le> y))"
    and root: "\<forall>b. ?D b \<noteq> PInf \<and> pred_get predm b = None \<longrightarrow> b = s"
    and acy: "acyclic_pred predm"
    using bf(2) unfolding bf_inv_def by blast+
  have unreach: "shortest_path nodes es s t = Inr ([], PInf, ''unreachable'')"
    if "?D t = PInf"
    using that bf(1) by (simp add: shortest_path_def)
  have reach: "\<exists>p. shortest_path nodes es s t = Inr (p, ?D t, []) \<and> p \<noteq> [] \<and> hd p = s \<and> last p = t"
    if fin: "?D t \<noteq> PInf"
  proof -
    obtain x where x: "?D t = Fin x" using fin by (cases "?D t") auto
    have "t \<in> fmdom' distm"
      using x by (auto simp: dget_def fmdom'I split: option.splits)
    then have "t \<noteq> PyNone" using bf(3) none by auto
    then have tt: "node_opt t = Some t" by (rule node_opt_Some)
    have ends: "\<forall>b. anc predm t b \<and> pred_get predm b = None \<longrightarrow> b = s"
    proof (intro allI impI, elim conjE)
      fix b
      assume "anc predm t b" and n: "pred_get predm b = None"
      then obtain y where "?D b = Fin y"
        using anc_walk [OF slack _ x] by blast
      then show "b = s" using root n by simp
    qed
    obtain q where q: "reconstruct predm (Some t) {} [] = Some ([] @ q)"
      "q \<noteq> []" "hd q = t" "last q = s"
      using reconstruct_ok [OF refl acy ends anc.anc_refl, of "{}" "[]"] by auto
    have lk: "fmlookup distm t = Some (?D t)"
      using x by (auto simp: dget_def split: option.splits)
    have "shortest_path nodes es s t = Inr (rev q, ?D t, [])"
      using bf(1) fin q lk tt by (simp add: shortest_path_def hd_rev)
    moreover have "rev q \<noteq> []" "hd (rev q) = s" "last (rev q) = t"
      using q by (simp_all add: hd_rev last_rev)
    ultimately show ?thesis by blast
  qed
  show ?thesis
    using bf(1) Ds unreach reach by blast
qed


text \<open>The node \<open>None\<close> as a target: the loop does not run, and the empty path is returned.\<close>

lemma shortest_path_none:
  assumes "bellman_ford nodes es s = Inr (distm, predm, False)"
    and "fmlookup distm PyNone = Some (Fin x)"
  shows "shortest_path nodes es s PyNone = Inr ([], Fin x, [])"
  using assms
  by (simp add: shortest_path_def dget_def reconstruct.simps [of predm None])

section \<open>Concrete scenario\<close>

lemma py_float_ints:
  "py_float (PInt 1) = Inr 1" "py_float (PInt 2) = Inr 2" "py_float (PInt 3) = Inr 3"
  "py_float (PInt (- 1)) = Inr (- 1)" "py_float (PInt (- 3)) = Inr (- 3)"
  using py_float_small [of 1] py_float_small [of 2] py_float_small [of 3]
    py_float_small [of "- 1"] py_float_small [of "- 3"] by simp_all

lemma scenario1_build: "scenario1 = Inr scenario1_fsm"
  by (simp add: scenario1_def build_fsm_def FSM_init_def add_transition_def Let_def
      py_float_ints scenario1_fsm_def)

text \<open>
  C2. States A, B, C with edges A\<rightarrow>B of weight 1, B\<rightarrow>C of weight 2 and C\<rightarrow>A of weight 3:
  the machine is built without error, and planning the cycle A, B, C on it returns
  ok = true, path = [A, B, C, A] and cost = 6, with and without the filter on negative edges.
\<close>

theorem plan_scenario1:
  "(case scenario1 of
      Inl x \<Rightarrow> False
    | Inr f \<Rightarrow>
        plan_cycle_ABC f (Py ''A'') (Py ''B'') (Py ''C'') False
          = Inr \<lparr>path = [Py ''A'', Py ''B'', Py ''C'', Py ''A''], cost = Fin 6, ok = True, reason = ''ok''\<rparr>
        \<and> plan_cycle_ABC f (Py ''A'') (Py ''B'') (Py ''C'') True
          = Inr \<lparr>path = [Py ''A'', Py ''B'', Py ''C'', Py ''A''], cost = Fin 6, ok = True, reason = ''ok''\<rparr>)"
  unfolding scenario1_build by code_simp

theorem plan_scenario1_witness:
  "\<exists>f r. scenario1 = Inr f \<and> plan_cycle_ABC f (Py ''A'') (Py ''B'') (Py ''C'') False = Inr r
      \<and> ok r \<and> path r = [Py ''A'', Py ''B'', Py ''C'', Py ''A''] \<and> cost r = Fin 6"
  using plan_scenario1 by (auto split: sum.splits)

section \<open>Properties of the cost aggregator\<close>

subsection \<open>Converted numbers\<close>

lemma round_to_double_lower:
  assumes "0 < n"
  shows "2 ^ (floorlog 2 n - 1) \<le> round_to_double n"
proof -
  let ?k = "floorlog 2 n"
  let ?e = "?k - 53"
  have lo: "2 ^ (?k - 1) \<le> n"
    using floorlog_bounds [of n 2] assms by simp
  show ?thesis
  proof (cases "?e = 0")
    case True
    then show ?thesis using lo by (simp add: round_to_double_def)
  next
    case False
    then have e: "?k - 1 = 52 + ?e" by simp
    let ?q = "n div 2 ^ ?e"
    have "2 ^ 52 * 2 ^ ?e \<le> n" using lo unfolding e by (simp add: power_add)
    then have q: "2 ^ 52 \<le> ?q"
      by (simp add: less_eq_div_iff_mult_less_eq)
    have "(2::nat) ^ (?k - 1) = 2 ^ 52 * 2 ^ ?e" unfolding e by (simp add: power_add)
    also have "\<dots> \<le> ?q * 2 ^ ?e" using q by simp
    also have "\<dots> \<le> round_to_double n"
      using False by (simp add: round_to_double_def Let_def)
    finally show ?thesis .
  qed
qed

lemma round_to_double_pos: "0 < n \<Longrightarrow> 0 < round_to_double n"
  using round_to_double_lower [of n] by (simp add: less_le_trans [of 0 "2 ^ (floorlog 2 n - 1)"])

lemma round_to_double_0 [simp]: "round_to_double 0 = 0"
  by (simp add: round_to_double_def floorlog_def)

lemma py_round_sign:
  "py_round v > 0 \<longleftrightarrow> py_val v > 0" "py_round v = 0 \<longleftrightarrow> py_val v = 0"
  "py_round v < 0 \<longleftrightarrow> py_val v < 0"
proof -
  have "(py_round v > 0 \<longleftrightarrow> py_val v > 0) \<and> (py_round v = 0 \<longleftrightarrow> py_val v = 0)
        \<and> (py_round v < 0 \<longleftrightarrow> py_val v < 0)"
  proof (cases v)
    case (PFloat x)
    then show ?thesis by simp
  next
    case (PInt n)
    consider "n < 0" | "n = 0" | "0 < n" by linarith
    then show ?thesis
    proof cases
      case 1
      then have "0 < round_to_double (nat \<bar>n\<bar>)" by (intro round_to_double_pos) simp
      then show ?thesis using PInt 1 by simp
    next
      case 2
      then show ?thesis using PInt by simp
    next
      case 3
      then have "0 < round_to_double (nat \<bar>n\<bar>)" by (intro round_to_double_pos) simp
      then show ?thesis using PInt 3 by simp
    qed
  qed
  then show "py_round v > 0 \<longleftrightarrow> py_val v > 0" "py_round v = 0 \<longleftrightarrow> py_val v = 0"
    "py_round v < 0 \<longleftrightarrow> py_val v < 0" by blast+
qed

lemma py_float_Inr: "py_float v = Inr x \<Longrightarrow> x = py_round v"
  by (cases v) (auto simp: py_float.simps split: if_splits)

lemma py_float_cases: "py_float v = Inr (py_round v) \<or> py_float v = Inl OverflowError"
  by (cases v) (auto simp: py_float.simps)

lemma attr_float_Inr: "attr_float attrs k = Inr x \<Longrightarrow> x = attr_num attrs k"
  by (auto simp: attr_float_def attr_num_def dest: py_float_Inr split: option.splits)

lemma attr_float_convertible: "convertible attrs \<Longrightarrow> attr_float attrs k = Inr (attr_num attrs k)"
  by (auto simp: attr_float_def attr_num_def convertible_def split: option.splits)

lemma read_duration_Inr: "read_duration attrs = Inr x \<Longrightarrow> x = resolved_duration attrs"
  by (auto simp: read_duration_def resolved_duration_def attr_float_def dom_def
        dest: py_float_Inr split: option.splits sum.splits if_splits)

lemma read_duration_convertible:
  "convertible attrs \<Longrightarrow> read_duration attrs = Inr (resolved_duration attrs)"
  by (auto simp: read_duration_def resolved_duration_def attr_float_def dom_def convertible_def
        split: option.splits sum.splits)

subsection \<open>The three stages\<close>

lemma bind_Inr:
  "(case m of Inl x \<Rightarrow> Inl x | Inr y \<Rightarrow> f y) = Inr r \<longleftrightarrow> (\<exists>y. m = Inr y \<and> f y = Inr r)"
  by (cases m) auto


lemma checked_returns:
  assumes "checked_cost policy beta0 crew0 energy_j distance_m mass_kg risk_prob duration_s
             credits = Inr r"
  shows "\<exists>beta g.
           r = cost_and_breakdown policy energy_j distance_m risk_prob credits duration_s beta g
                 (case crew0 of
                    None \<Rightarrow> if duration_s > 0 then duration_s / g else 0
                  | Some c \<Rightarrow> py_round c)"
proof -
  obtain beta g crew where v:
      "(case crew0 of
          None \<Rightarrow> Inr (if duration_s > 0 then duration_s / g else 0)
        | Some c \<Rightarrow> py_float c) = Inr crew"
      "r = cost_and_breakdown policy energy_j distance_m risk_prob credits duration_s beta g crew"
    using assms unfolding checked_cost_def
    by (auto simp: bind_Inr split: if_split_asm)
  have "crew = (case crew0 of
                    None \<Rightarrow> if duration_s > 0 then duration_s / g else 0
                  | Some c \<Rightarrow> py_round c)"
    using v(1) by (auto split: option.splits dest: py_float_Inr)
  then show ?thesis
    using v(2) by blast
qed

lemma agg_returns:
  assumes "aggregate_cost_with_breakdown attrs policy = Inr r"
  shows "\<exists>beta g.
           r = cost_and_breakdown policy (attr_num attrs ''energy_j'')
                 (attr_num attrs ''distance_m'') (attr_num attrs ''risk_prob'')
                 (attr_num attrs ''credits'') (resolved_duration attrs) beta g
                 (case attrs ''crew_time_s'' of
                    None \<Rightarrow> if resolved_duration attrs > 0
                            then resolved_duration attrs / g else 0
                  | Some c \<Rightarrow> py_round c)"
proof -
  obtain energy_j distance_m mass_kg risk_prob duration_s credits
    where v: "attr_float attrs ''energy_j'' = Inr energy_j"
      "attr_float attrs ''distance_m'' = Inr distance_m"
      "attr_float attrs ''risk_prob'' = Inr risk_prob"
      "read_duration attrs = Inr duration_s"
      "attr_float attrs ''credits'' = Inr credits"
      "checked_cost policy (attrs ''velocity_fraction_c'') (attrs ''crew_time_s'')
         energy_j distance_m mass_kg risk_prob duration_s credits = Inr r"
    using assms unfolding aggregate_cost_with_breakdown_def bind_Inr by blast
  have eqs: "energy_j = attr_num attrs ''energy_j''" "distance_m = attr_num attrs ''distance_m''"
    "risk_prob = attr_num attrs ''risk_prob''" "credits = attr_num attrs ''credits''"
    "duration_s = resolved_duration attrs"
    using v attr_float_Inr read_duration_Inr by blast+
  show ?thesis
    using checked_returns [OF v(6)] unfolding eqs .
qed


text \<open>
  C4. Whenever \<open>aggregate_cost_with_breakdown\<close> returns, the cost is the scalar formula
  energy_weight * (energy / max(1, energy_scale)) + earth_time_weight * duration
  + crew_time_weight * crew_time + risk_weight * risk_penalty - credits on the effective
  time and risk weights (scaled in mode real_world), floored at zero when the policy
  disallows negative edges; the component terms of the breakdown are the unfloored ones,
  so they always add up to the unfloored formula.
\<close>

theorem cost_formula:
  assumes "aggregate_cost_with_breakdown attrs policy = Inr (c, bd)"
  shows "c = (if allow_negative_edges policy
              then scalar_cost (energy_weight policy) (attr_num attrs ''energy_j'')
                     (energy_scale policy) (eff_earth_time bd) (resolved_duration attrs)
                     (eff_crew_time bd) (bd_crew_time_s bd) (eff_risk bd)
                     (bd_risk_penalty bd) (attr_num attrs ''credits'')
              else max 0 (scalar_cost (energy_weight policy) (attr_num attrs ''energy_j'')
                     (energy_scale policy) (eff_earth_time bd) (resolved_duration attrs)
                     (eff_crew_time bd) (bd_crew_time_s bd) (eff_risk bd)
                     (bd_risk_penalty bd) (attr_num attrs ''credits'')))
       \<and> energy_weight policy * energy_term bd + time_term bd + risk_term bd
             - attr_num attrs ''credits''
           = scalar_cost (energy_weight policy) (attr_num attrs ''energy_j'')
                     (energy_scale policy) (eff_earth_time bd) (resolved_duration attrs)
                     (eff_crew_time bd) (bd_crew_time_s bd) (eff_risk bd)
                     (bd_risk_penalty bd) (attr_num attrs ''credits'')
       \<and> energy_term bd = attr_num attrs ''energy_j'' / max 1 (energy_scale policy)
       \<and> time_term bd = eff_earth_time bd * resolved_duration attrs
                          + eff_crew_time bd * bd_crew_time_s bd
       \<and> risk_term bd = eff_risk bd * bd_risk_penalty bd
       \<and> eff_earth_time bd =
           (if is_real_world policy
            then earth_time_weight policy
                   * (1 + min (if resolved_duration attrs > 0
                               then resolved_duration attrs / 86400 else 0) 10 * 0.05)
            else earth_time_weight policy)
       \<and> eff_crew_time bd =
           (if is_real_world policy
            then crew_time_weight policy
                   * (1 + min (if resolved_duration attrs > 0
                               then resolved_duration attrs / 86400 else 0) 10 * 0.02)
            else crew_time_weight policy)
       \<and> eff_risk bd =
           (if is_real_world policy
            then risk_weight policy * (1 + min (max (attr_num attrs ''risk_prob'') 0) 0.99 * 2)
            else risk_weight policy)
       \<and> bd_risk_penalty bd =
           - ln (max (1 / 10 ^ 12) (1 - min (max (attr_num attrs ''risk_prob'') 0) 0.999999))
       \<and> bd_duration_s bd = resolved_duration attrs
       \<and> bd_crew_time_s bd =
           (case attrs ''crew_time_s'' of
              Some x \<Rightarrow> py_round x
            | None \<Rightarrow> if resolved_duration attrs > 0
                      then resolved_duration attrs / bd_gamma bd else 0)"
proof -
  have rw: "(lower (case mode policy of None \<Rightarrow> [] | Some m \<Rightarrow> m) = ''real_world'')
              = is_real_world policy"
    by (cases "mode policy") (auto simp: is_real_world_def lower_def)
  let ?crew = "\<lambda>g. case attrs ''crew_time_s'' of
                    None \<Rightarrow> if resolved_duration attrs > 0
                            then resolved_duration attrs / g else 0
                  | Some c \<Rightarrow> py_round c"
  obtain beta g
    where cb: "(c, bd) = cost_and_breakdown policy (attr_num attrs ''energy_j'')
                 (attr_num attrs ''distance_m'') (attr_num attrs ''risk_prob'')
                 (attr_num attrs ''credits'') (resolved_duration attrs) beta g (?crew g)"
    using agg_returns [OF assms] by blast
  have c: "c = fst (cost_and_breakdown policy (attr_num attrs ''energy_j'')
                 (attr_num attrs ''distance_m'') (attr_num attrs ''risk_prob'')
                 (attr_num attrs ''credits'') (resolved_duration attrs) beta g (?crew g))"
    and bd: "bd = snd (cost_and_breakdown policy (attr_num attrs ''energy_j'')
                 (attr_num attrs ''distance_m'') (attr_num attrs ''risk_prob'')
                 (attr_num attrs ''credits'') (resolved_duration attrs) beta g (?crew g))"
    using cb [symmetric] by simp_all
  show ?thesis
    unfolding c bd
    apply (simp only: cost_and_breakdown_def Let_def fst_conv snd_conv breakdown.select_convs
        rw scalar_cost_def)
    apply (cases "allow_negative_edges policy")
     apply (simp_all add: add.assoc split del: if_split cong: if_cong)
    done
qed


lemma py_round_ge1: "py_round v \<ge> 1 \<longleftrightarrow> py_val v \<ge> 1"
proof (cases v)
  case (PFloat x)
  then show ?thesis by simp
next
  case (PInt n)
  show ?thesis
  proof (cases "0 < n")
    case True
    then have "0 < round_to_double (nat \<bar>n\<bar>)" by (intro round_to_double_pos) simp
    then have "1 \<le> real (round_to_double (nat \<bar>n\<bar>))" by simp
    then show ?thesis using PInt True by simp
  next
    case False
    then have "py_round v \<le> 0" using PInt by (cases "n < 0") simp_all
    then show ?thesis using PInt False by simp
  qed
qed

lemma agg_convertible:
  "convertible attrs \<Longrightarrow>
     aggregate_cost_with_breakdown attrs policy
       = checked_cost policy (attrs ''velocity_fraction_c'') (attrs ''crew_time_s'')
           (attr_num attrs ''energy_j'') (attr_num attrs ''distance_m'')
           (attr_num attrs ''mass_kg'') (attr_num attrs ''risk_prob'')
           (resolved_duration attrs) (attr_num attrs ''credits'')"
  by (simp add: aggregate_cost_with_breakdown_def attr_float_convertible
        read_duration_convertible)


lemma read_beta_convertible:
  assumes "\<And>b. beta0 = Some b \<Longrightarrow> py_float b = Inr (py_round b)"
  shows "read_beta beta0 policy D T
           = Inr (case beta0 of
                    Some b \<Rightarrow> py_round b
                  | None \<Rightarrow>
                      if infer_velocity_from_distance_and_duration policy \<and> D > 0 \<and> T > 0
                      then max 0 (min (D / T / 299792458) 0.999999) else 0)"
proof (cases beta0)
  case None
  then show ?thesis by (simp add: read_beta_def C_M_PER_S_def)
next
  case (Some b)
  then show ?thesis
    using assms [OF Some] py_round_sign(2) [of b]
    by (auto simp: read_beta_def)
qed




text \<open>
  C9, as amended. With \<open>strict_invariants\<close> disabled and every attribute value
  converting to a float, an explicitly supplied velocity fraction of 1 or more still makes
  \<open>aggregate_cost_with_breakdown\<close> raise (the \<open>ValueError\<close> of the relativistic factor),
  while an explicitly supplied negative velocity fraction does not raise: the function
  returns a cost and a breakdown.
\<close>

theorem permissive_explicit_velocity:
  assumes "\<not> strict_invariants policy" and "convertible attrs"
    and "attrs ''velocity_fraction_c'' = Some v"
  shows "(py_val v \<ge> 1 \<longrightarrow> aggregate_cost_with_breakdown attrs policy
              = Inl (ValueError ''velocity_fraction_c must be in [0,1)''))
       \<and> (py_val v < 0 \<longrightarrow> (\<exists>r. aggregate_cost_with_breakdown attrs policy = Inr r))"
proof -
  have cv: "\<And>b. attrs ''velocity_fraction_c'' = Some b \<Longrightarrow> py_float b = Inr (py_round b)"
    and cc: "\<And>c. attrs ''crew_time_s'' = Some c \<Longrightarrow> py_float c = Inr (py_round c)"
    using assms(2) unfolding convertible_def by blast+
  have b: "read_beta (attrs ''velocity_fraction_c'') policy D T = Inr (py_round v)" for D T
    using read_beta_convertible [of "attrs ''velocity_fraction_c''" policy D T, OF cv] assms(3)
    by simp
  have crew: "\<exists>y. (case attrs ''crew_time_s'' of
                    None \<Rightarrow> Inr (if T > 0 then T / g else 0)
                  | Some c \<Rightarrow> py_float c) = Inr y" for g T :: real
    using cc by (cases "attrs ''crew_time_s''") auto
  have hi: "aggregate_cost_with_breakdown attrs policy
              = Inl (ValueError ''velocity_fraction_c must be in [0,1)'')"
    if "py_val v \<ge> 1"
  proof -
    have "py_round v \<ge> 1" using that by (simp add: py_round_ge1)
    then show ?thesis
      unfolding agg_convertible [OF assms(2)] checked_cost_def b
      using assms(1) by (simp add: gamma_def)
  qed
  have lo: "\<exists>r. aggregate_cost_with_breakdown attrs policy = Inr r"
    if "py_val v < 0"
  proof -
    have neg: "py_round v < 0" using that by (simp add: py_round_sign)
    obtain y where y: "(case attrs ''crew_time_s'' of
                    None \<Rightarrow> Inr (if resolved_duration attrs > 0
                                  then resolved_duration attrs / 1 else 0)
                  | Some c \<Rightarrow> py_float c) = Inr y"
      using crew by blast
    show ?thesis
      unfolding agg_convertible [OF assms(2)] checked_cost_def b
      using assms(1) neg y by (simp split del: if_split)
  qed
  show ?thesis using hi lo by blast
qed

lemma py_float_big:
  "py_float (PInt huge) = Inl OverflowError" "py_float (PInt (- huge)) = Inl OverflowError"
proof -
  have "(2::int) ^ 1024 \<le> \<bar>huge\<bar>" by (simp add: huge_def)
  then show "py_float (PInt huge) = Inl OverflowError" by (rule py_float_large)
  have "(2::int) ^ 1024 \<le> \<bar>- huge\<bar>" by (simp add: huge_def)
  then show "py_float (PInt (- huge)) = Inl OverflowError" by (rule py_float_large)
qed

lemma huge_pos: "0 < huge"
  by (simp add: huge_def)

theorem permissive_explicit_velocity_witness:
  "aggregate_cost_with_breakdown [''velocity_fraction_c'' \<mapsto> PFloat (6 / 5)]
       (default_policy\<lparr>strict_invariants := False\<rparr>)
     = Inl (ValueError ''velocity_fraction_c must be in [0,1)'')
   \<and> (\<exists>r. aggregate_cost_with_breakdown [''velocity_fraction_c'' \<mapsto> PInt (- 2)]
            (default_policy\<lparr>strict_invariants := False\<rparr>) = Inr r)"
proof -
  have c1: "convertible [''velocity_fraction_c'' \<mapsto> PFloat (6 / 5)]"
    by (auto simp: convertible_def split: if_splits)
  have c2: "convertible [''velocity_fraction_c'' \<mapsto> PInt (- 2)]"
    using py_float_small [of "- 2"] py_round_small [of "- 2"]
    by (auto simp: convertible_def split: if_splits)
  show ?thesis
    using permissive_explicit_velocity
            [of "default_policy\<lparr>strict_invariants := False\<rparr>"
                "[''velocity_fraction_c'' \<mapsto> PFloat (6 / 5)]" "PFloat (6 / 5)", OF _ c1]
          permissive_explicit_velocity
            [of "default_policy\<lparr>strict_invariants := False\<rparr>"
                "[''velocity_fraction_c'' \<mapsto> PInt (- 2)]" "PInt (- 2)", OF _ c2]
    by (simp add: default_policy_def)
qed

text \<open>
  The claim as stated fails: in permissive mode the int - 10 ** 400, a negative velocity
  fraction, raises \<open>OverflowError\<close> in \<open>float(beta or 0.0)\<close>; and 10 ** 400, which is 1 or
  more, raises that error too, not the one of the relativistic factor.
\<close>

theorem permissive_explicit_velocity_counterexample:
  "\<not> strict_invariants (default_policy\<lparr>strict_invariants := False\<rparr>)
   \<and> py_val (PInt (- huge)) < 0
   \<and> aggregate_cost_with_breakdown [''velocity_fraction_c'' \<mapsto> PInt (- huge)]
         (default_policy\<lparr>strict_invariants := False\<rparr>) = Inl OverflowError
   \<and> py_val (PInt huge) \<ge> 1
   \<and> aggregate_cost_with_breakdown [''velocity_fraction_c'' \<mapsto> PInt huge]
         (default_policy\<lparr>strict_invariants := False\<rparr>) = Inl OverflowError"
proof -
  have r: "read_beta (Some (PInt (- huge))) p D T = Inl OverflowError"
    "read_beta (Some (PInt huge)) p D T = Inl OverflowError" for p D T
    unfolding read_beta_def using huge_pos by (simp_all add: py_float_big)
  have "aggregate_cost_with_breakdown [''velocity_fraction_c'' \<mapsto> PInt (- huge)]
         (default_policy\<lparr>strict_invariants := False\<rparr>) = Inl OverflowError"
    unfolding aggregate_cost_with_breakdown_def checked_cost_def
    by (simp add: attr_float_def read_duration_def default_policy_def r)
  moreover have "aggregate_cost_with_breakdown [''velocity_fraction_c'' \<mapsto> PInt huge]
         (default_policy\<lparr>strict_invariants := False\<rparr>) = Inl OverflowError"
    unfolding aggregate_cost_with_breakdown_def checked_cost_def
    by (simp add: attr_float_def read_duration_def default_policy_def r)
  ultimately show ?thesis using huge_pos by (simp add: default_policy_def)
qed



theorem cost_formula_witness:
  "\<exists>c bd. aggregate_cost_with_breakdown
       [''energy_j'' \<mapsto> PFloat (10 ^ 9), ''duration_s'' \<mapsto> PInt 10,
        ''risk_prob'' \<mapsto> PFloat 0, ''credits'' \<mapsto> PInt 100]
       default_policy = Inr (c, bd) \<and> c = - 96"
proof -
  let ?a = "[''energy_j'' \<mapsto> PFloat (10 ^ 9), ''duration_s'' \<mapsto> PInt 10,
             ''risk_prob'' \<mapsto> PFloat 0, ''credits'' \<mapsto> PInt 100]"
  have f: "py_float (PInt 10) = Inr 10" "py_float (PInt 100) = Inr 100"
    using py_float_small [of 10] py_float_small [of 100] by simp_all
  have r: "py_round (PInt 10) = 10" "py_round (PInt 100) = 100"
    using py_round_small [of 10] py_round_small [of 100] by simp_all
  have run: "aggregate_cost_with_breakdown ?a default_policy
               = Inr (cost_and_breakdown default_policy (10 ^ 9) 0 0 100 10 0 1 10)"
    by (simp add: aggregate_cost_with_breakdown_def checked_cost_def default_policy_def
          attr_float_def read_duration_def kinematic_check_def read_beta_def f)
  obtain c bd where cb: "cost_and_breakdown default_policy (10 ^ 9) 0 0 100 10 0 1 10 = (c, bd)"
    by (cases "cost_and_breakdown default_policy (10 ^ 9) 0 0 100 10 0 1 10")
  have g: "bd_gamma bd = 1"
    using cb by (auto simp: cost_and_breakdown_def Let_def)
  have rw: "\<not> is_real_world default_policy"
    by (simp add: is_real_world_def default_policy_def)
  have "c = - 96"
    using cost_formula [of ?a default_policy c bd] run cb g rw r
    by (simp add: scalar_cost_def resolved_duration_def attr_num_def default_policy_def)
  then show ?thesis using run cb by simp
qed

section \<open>The cycle planner\<close>

lemma edges_from_fsm_within: "fsm_inv f \<Longrightarrow> edges_within (states f) (edges_from_fsm f)"
proof -
  assume inv: "fsm_inv f"
  show ?thesis
    unfolding edges_within_def edges_from_fsm_def
  proof
    fix e
    assume "e \<in> set (map (\<lambda>t. \<lparr>e_u = src t, e_v = dst t, e_w = weight t\<rparr>) (transitions f))"
    then obtain t where t: "t \<in> set (transitions f)" "e = \<lparr>e_u = src t, e_v = dst t, e_w = weight t\<rparr>"
      by auto
    then show "e_u e \<in> set (states f) \<and> e_v e \<in> set (states f)"
      using fsm_inv_endpoints [OF inv t(1)] by simp
  qed
qed

lemma used_edges_within: "fsm_inv f \<Longrightarrow> edges_within (states f) (used_edges f forbid)"
  using edges_from_fsm_within [of f] by (simp add: used_edges_def edges_within_def)



lemma plan_unfold:
  "plan_cycle_ABC fsm A B C forbid =
     (if A \<notin> set (states fsm) \<or> B \<notin> set (states fsm) \<or> C \<notin> set (states fsm)
      then Inr (plan_fail ''A/B/C not in FSM states'')
      else if detect_any_negative_cycle (states fsm) (used_edges fsm forbid)
      then Inr (plan_fail ''negative cycle exists in graph'')
      else
        (case shortest_path (states fsm) (used_edges fsm forbid) A B of
           Inl x \<Rightarrow> Inl x
         | Inr (p1, c1, r1) \<Rightarrow>
             if p1 = [] then Inr (plan_fail (''A->B planning failed: '' @ r1))
             else
               (case shortest_path (states fsm) (used_edges fsm forbid) B C of
                  Inl x \<Rightarrow> Inl x
                | Inr (p2, c2, r2) \<Rightarrow>
                    if p2 = [] then Inr (plan_fail (''B->C planning failed: '' @ r2))
                    else
                      (case shortest_path (states fsm) (used_edges fsm forbid) C A of
                         Inl x \<Rightarrow> Inl x
                       | Inr (p3, c3, r3) \<Rightarrow>
                           if p3 = [] then Inr (plan_fail (''C->A planning failed: '' @ r3))
                           else Inr \<lparr>path = p1 @ drop 1 p2 @ drop 1 p3,
                                     cost = ext_plus (ext_plus c1 c2) c3,
                                     ok = True, reason = ''ok''\<rparr>))))"
  unfolding plan_cycle_ABC_def used_edges_def Let_def by (rule refl)

text \<open>A leg on a graph without a negative cycle: it returns, and fails only as unreachable.\<close>

lemma leg_result:
  assumes nn: "\<not> negative_cycle es" and ew: "edges_within nodes es" and s: "s \<in> set nodes"
    and none: "PyNone \<notin> set nodes"
  shows "\<exists>p c r. shortest_path nodes es s t = Inr (p, c, r)
           \<and> ((p = [] \<and> c = PInf \<and> r = ''unreachable'') \<or> (p \<noteq> [] \<and> r = [] \<and> hd p = s \<and> last p = t))"
proof -
  obtain distm predm where r:
    "dget distm t = PInf \<longrightarrow> shortest_path nodes es s t = Inr ([], PInf, ''unreachable'')"
    "dget distm t \<noteq> PInf \<longrightarrow>
       (\<exists>p. shortest_path nodes es s t = Inr (p, dget distm t, [])
          \<and> p \<noteq> [] \<and> hd p = s \<and> last p = t)"
    using shortest_path_run [OF nn ew s none, of t] by blast
  show ?thesis
  proof (cases "dget distm t = PInf")
    case True
    then show ?thesis using r(1) by simp
  next
    case False
    then show ?thesis using r(2) by auto
  qed
qed

subsection \<open>Machines of the scenarios\<close>

lemma add_all_built: "add_all f ts = Inr g \<Longrightarrow> built f \<Longrightarrow> built g"
proof (induction f ts rule: add_all.induct)
  case (1 fsm)
  then show ?case by simp
next
  case (2 fsm s d w ts)
  obtain r f' where af: "add_transition fsm s d None w = (r, f')"
    by (cases "add_transition fsm s d None w") auto
  show ?case
  proof (cases r)
    case (Inl x)
    then show ?thesis using "2.prems"(1) af by simp
  next
    case (Inr y)
    then have "add_all f' ts = Inr g" using "2.prems"(1) af by simp
    moreover have "built f'"
      using built_add [OF "2.prems"(2), of s d None w] af by simp
    ultimately show ?thesis using "2.IH" [OF af [symmetric] Inr] by blast
  qed
qed

lemma build_fsm_built: "build_fsm sts ini ts = Inr f \<Longrightarrow> built f"
  unfolding build_fsm_def
  by (auto split: sum.splits intro: add_all_built built_init)

lemma scenario3_build:
  "build_fsm [Py ''A'', Py ''B'', Py ''C''] (Py ''A'')
     [(Py ''A'', Py ''B'', PInt 1), (Py ''B'', Py ''A'', PInt (- 3)),
      (Py ''B'', Py ''C'', PInt 1), (Py ''C'', Py ''A'', PInt 1)]
   = Inr scenario3_fsm"
  by (simp add: build_fsm_def FSM_init_def add_transition_def Let_def
      py_float_ints scenario3_fsm_def)

lemma loop_build:
  "build_fsm [Py ''A'', Py ''B'', Py ''C''] (Py ''A'') [(Py ''C'', Py ''C'', PInt (- 1))]
     = Inr loop_fsm"
  by (simp add: build_fsm_def FSM_init_def add_transition_def Let_def
      py_float_ints loop_fsm_def)


lemma nonneg_no_cycle:
  assumes "\<forall>e \<in> set E. 0 \<le> e_w e"
  shows "\<not> negative_cycle E"
proof -
  have "walk E a p b \<Longrightarrow> 0 \<le> cost_of p" for a p b
    using assms by (induction p arbitrary: a) auto
  then show ?thesis unfolding negative_cycle_def by (meson not_less)
qed

subsection \<open>Legs that return\<close>

lemma bellman_ford_returns:
  assumes ew: "edges_within nodes es" and s: "s \<in> set nodes"
  shows "\<exists>distm predm neg. bellman_ford nodes es s = Inr (distm, predm, neg)
           \<and> fmdom' distm = set nodes"
proof -
  let ?d = "fmupd s (Fin 0) (fmap_of_list (map (\<lambda>n. (n, PInf)) nodes))"
  let ?p = "fmap_of_list (map (\<lambda>n. (n, None)) nodes) :: ('a py, 'a py option) fmap"
  have dom: "fmdom' ?d = set nodes"
    using s by (auto simp: fmdom'_const_list)
  have keys: "\<forall>e \<in> set es. e_u e \<in> fmdom' ?d \<and> e_v e \<in> fmdom' ?d"
    using ew unfolding dom edges_within_def by blast
  obtain distm predm where l:
    "bf_loop (length nodes - 1) es (?d, ?p) = Inr (distm, predm)"
    "fmdom' distm = fmdom' ?d"
    using bf_loop_run [where E = es and I = "\<lambda>_ _. True" and distm = ?d and predm = ?p
        and k = "length nodes - 1"] keys
    by auto
  have "\<forall>e \<in> set es. e_u e \<in> fmdom' distm \<and> e_v e \<in> fmdom' distm"
    using keys l(2) by simp
  then have "bf_check es distm = Inr (\<not> feasible es (dget distm))"
    by (rule bf_check_run)
  then show ?thesis
    using l dom by (simp add: bellman_ford_def)
qed

text \<open>A leg between listed nodes, over edges that join listed nodes, does not raise.\<close>

lemma shortest_path_returns:
  assumes ew: "edges_within nodes es" and s: "s \<in> set nodes" and t: "t \<in> set nodes"
  shows "\<exists>p c r. shortest_path nodes es s t = Inr (p, c, r)"
proof -
  obtain distm predm neg where bf: "bellman_ford nodes es s = Inr (distm, predm, neg)"
    "fmdom' distm = set nodes"
    using bellman_ford_returns [OF ew s] by blast
  have "fmlookup distm t \<noteq> None"
    using t bf(2) fmdom'_notI [of distm t] by auto
  then obtain d where "fmlookup distm t = Some d" by blast
  then show ?thesis
    using bf(1) by (auto simp: shortest_path_def split: option.splits)
qed

lemma exact_weights_filter:
  "exact_weights nodes es \<Longrightarrow> exact_weights nodes (filter P es)"
proof -
  assume a: "exact_weights nodes es"
  have len: "length (filter P es) \<le> length es" by simp
  show ?thesis
    unfolding exact_weights_def
  proof
    fix e
    assume "e \<in> set (filter P es)"
    then have e: "e \<in> set es" by simp
    then have z: "e_w e \<in> \<int>"
      and b: "\<bar>e_w e\<bar> * real (length nodes * (length es + length nodes)) \<le> 2 ^ 53"
      using a unfolding exact_weights_def by blast+
    have "length nodes * (length (filter P es) + length nodes)
            \<le> length nodes * (length es + length nodes)"
      using len by simp
    then have "real (length nodes * (length (filter P es) + length nodes))
            \<le> real (length nodes * (length es + length nodes))"
      by (rule iffD2 [OF of_nat_le_iff])
    then have "\<bar>e_w e\<bar> * real (length nodes * (length (filter P es) + length nodes))
            \<le> \<bar>e_w e\<bar> * real (length nodes * (length es + length nodes))"
      by (intro mult_left_mono) simp_all
    then show "e_w e \<in> \<int>
        \<and> \<bar>e_w e\<bar> * real (length nodes * (length (filter P es) + length nodes)) \<le> 2 ^ 53"
      using z b by linarith
  qed
qed




lemma ab_exact: "exact_weights (states ab_fsm) (edges_from_fsm ab_fsm)"
  by (simp add: exact_weights_def edges_from_fsm_def transitions_def ab_fsm_def)

subsection \<open>Negative cycles\<close>




subsection \<open>The three legs\<close>

text \<open>
  C6, as amended. On a built machine: an unregistered waypoint gives ok = false with
  exactly "A/B/C not in FSM states"; with all three registered, a positive negative-cycle
  pre-check gives ok = false with "negative cycle exists in graph" whatever the legs would
  do; otherwise the three legs A\<rightarrow>B, B\<rightarrow>C, C\<rightarrow>A all return, the first of them with an empty
  path gives ok = false with its name, " planning failed: " and its own reason, and
  ok = true is returned only when all three paths are non-empty. That own reason is
  "unreachable" when \<open>None\<close> is not a state and the weights are whole numbers small enough
  for the double arithmetic to be exact.
\<close>

theorem plan_legs:
  assumes "built fsm"
  shows
    "(A \<notin> set (states fsm) \<or> B \<notin> set (states fsm) \<or> C \<notin> set (states fsm) \<longrightarrow>
        plan_cycle_ABC fsm A B C forbid = Inr (plan_fail ''A/B/C not in FSM states''))
   \<and> (A \<in> set (states fsm) \<and> B \<in> set (states fsm) \<and> C \<in> set (states fsm)
        \<and> detect_any_negative_cycle (states fsm) (used_edges fsm forbid) \<longrightarrow>
        plan_cycle_ABC fsm A B C forbid = Inr (plan_fail ''negative cycle exists in graph''))
   \<and> (A \<in> set (states fsm) \<and> B \<in> set (states fsm) \<and> C \<in> set (states fsm)
        \<and> \<not> detect_any_negative_cycle (states fsm) (used_edges fsm forbid) \<longrightarrow>
        (\<exists>p1 c1 r1 p2 c2 r2 p3 c3 r3.
           shortest_path (states fsm) (used_edges fsm forbid) A B = Inr (p1, c1, r1)
         \<and> shortest_path (states fsm) (used_edges fsm forbid) B C = Inr (p2, c2, r2)
         \<and> shortest_path (states fsm) (used_edges fsm forbid) C A = Inr (p3, c3, r3)
         \<and> (PyNone \<notin> set (states fsm)
              \<and> exact_weights (states fsm) (used_edges fsm forbid) \<longrightarrow>
              (p1 = [] \<longrightarrow> r1 = ''unreachable'') \<and> (p2 = [] \<longrightarrow> r2 = ''unreachable'')
              \<and> (p3 = [] \<longrightarrow> r3 = ''unreachable''))
         \<and> plan_cycle_ABC fsm A B C forbid =
             Inr (if p1 = [] then plan_fail (''A->B planning failed: '' @ r1)
                  else if p2 = [] then plan_fail (''B->C planning failed: '' @ r2)
                  else if p3 = [] then plan_fail (''C->A planning failed: '' @ r3)
                  else \<lparr>path = p1 @ drop 1 p2 @ drop 1 p3,
                        cost = ext_plus (ext_plus c1 c2) c3, ok = True, reason = ''ok''\<rparr>)))"
proof (intro conjI impI)
  assume "A \<notin> set (states fsm) \<or> B \<notin> set (states fsm) \<or> C \<notin> set (states fsm)"
  then show "plan_cycle_ABC fsm A B C forbid = Inr (plan_fail ''A/B/C not in FSM states'')"
    by (simp add: plan_unfold)
next
  assume "A \<in> set (states fsm) \<and> B \<in> set (states fsm) \<and> C \<in> set (states fsm)
        \<and> detect_any_negative_cycle (states fsm) (used_edges fsm forbid)"
  then show "plan_cycle_ABC fsm A B C forbid
               = Inr (plan_fail ''negative cycle exists in graph'')"
    by (simp add: plan_unfold)
next
  let ?S = "states fsm" and ?es = "used_edges fsm forbid"
  assume h: "A \<in> set ?S \<and> B \<in> set ?S \<and> C \<in> set ?S \<and> \<not> detect_any_negative_cycle ?S ?es"
  have ew: "edges_within ?S ?es"
    using used_edges_within [OF built_inv [OF assms]] .
  then have nn: "\<not> negative_cycle ?es"
    using detect_iff [of ?S ?es] h by simp
  obtain p1 c1 r1 where l1: "shortest_path ?S ?es A B = Inr (p1, c1, r1)"
    using shortest_path_returns [OF ew, of A B] h by blast
  obtain p2 c2 r2 where l2: "shortest_path ?S ?es B C = Inr (p2, c2, r2)"
    using shortest_path_returns [OF ew, of B C] h by blast
  obtain p3 c3 r3 where l3: "shortest_path ?S ?es C A = Inr (p3, c3, r3)"
    using shortest_path_returns [OF ew, of C A] h by blast
  have un: "(p1 = [] \<longrightarrow> r1 = ''unreachable'') \<and> (p2 = [] \<longrightarrow> r2 = ''unreachable'')
              \<and> (p3 = [] \<longrightarrow> r3 = ''unreachable'')"
    if none: "PyNone \<notin> set ?S"
  proof -
    have "p1 = [] \<longrightarrow> r1 = ''unreachable''"
      using leg_result [OF nn ew _ none, of A B] h l1 by auto
    moreover have "p2 = [] \<longrightarrow> r2 = ''unreachable''"
      using leg_result [OF nn ew _ none, of B C] h l2 by auto
    moreover have "p3 = [] \<longrightarrow> r3 = ''unreachable''"
      using leg_result [OF nn ew _ none, of C A] h l3 by auto
    ultimately show ?thesis by blast
  qed
  have "plan_cycle_ABC fsm A B C forbid =
             Inr (if p1 = [] then plan_fail (''A->B planning failed: '' @ r1)
                  else if p2 = [] then plan_fail (''B->C planning failed: '' @ r2)
                  else if p3 = [] then plan_fail (''C->A planning failed: '' @ r3)
                  else \<lparr>path = p1 @ drop 1 p2 @ drop 1 p3,
                        cost = ext_plus (ext_plus c1 c2) c3, ok = True, reason = ''ok''\<rparr>)"
    using h l1 l2 l3 by (simp add: plan_unfold)
  then show "\<exists>p1 c1 r1 p2 c2 r2 p3 c3 r3.
           shortest_path ?S ?es A B = Inr (p1, c1, r1)
         \<and> shortest_path ?S ?es B C = Inr (p2, c2, r2)
         \<and> shortest_path ?S ?es C A = Inr (p3, c3, r3)
         \<and> (PyNone \<notin> set ?S \<and> exact_weights ?S ?es \<longrightarrow>
              (p1 = [] \<longrightarrow> r1 = ''unreachable'') \<and> (p2 = [] \<longrightarrow> r2 = ''unreachable'')
              \<and> (p3 = [] \<longrightarrow> r3 = ''unreachable''))
         \<and> plan_cycle_ABC fsm A B C forbid =
             Inr (if p1 = [] then plan_fail (''A->B planning failed: '' @ r1)
                  else if p2 = [] then plan_fail (''B->C planning failed: '' @ r2)
                  else if p3 = [] then plan_fail (''C->A planning failed: '' @ r3)
                  else \<lparr>path = p1 @ drop 1 p2 @ drop 1 p3,
                        cost = ext_plus (ext_plus c1 c2) c3, ok = True, reason = ''ok''\<rparr>)"
    using l1 l2 l3 un by blast
qed


lemma ab_build:
  "build_fsm [Py ''A'', Py ''B'', Py ''C''] (Py ''A'') [(Py ''A'', Py ''B'', PInt 1)] = Inr ab_fsm"
  by (simp add: build_fsm_def FSM_init_def add_transition_def Let_def
      py_float_ints ab_fsm_def)

theorem plan_legs_witness:
  "plan_cycle_ABC ab_fsm (Py ''A'') (Py ''B'') (Py ''D'') False
     = Inr (plan_fail ''A/B/C not in FSM states'')
   \<and> plan_cycle_ABC scenario3_fsm (Py ''A'') (Py ''B'') (Py ''C'') False
       = Inr (plan_fail ''negative cycle exists in graph'')
   \<and> plan_cycle_ABC ab_fsm (Py ''A'') (Py ''B'') (Py ''C'') False
       = Inr (plan_fail ''B->C planning failed: unreachable'')"
proof -
  have b: "built ab_fsm" using build_fsm_built [OF ab_build] .
  have b3: "built scenario3_fsm" using build_fsm_built [OF scenario3_build] .
  have st: "states ab_fsm = [Py ''A'', Py ''B'', Py ''C'']"
    "states scenario3_fsm = [Py ''A'', Py ''B'', Py ''C'']"
    by (simp_all add: ab_fsm_def scenario3_fsm_def)
  have d3: "detect_any_negative_cycle (states scenario3_fsm) (used_edges scenario3_fsm False)"
    by code_simp
  have d: "\<not> detect_any_negative_cycle (states ab_fsm) (used_edges ab_fsm False)"
    by code_simp
  have l1: "shortest_path (states ab_fsm) (used_edges ab_fsm False) (Py ''A'') (Py ''B'')
              = Inr ([Py ''A'', Py ''B''], Fin 1, [])"
    by code_simp
  have l2: "shortest_path (states ab_fsm) (used_edges ab_fsm False) (Py ''B'') (Py ''C'')
              = Inr ([], PInf, ''unreachable'')"
    by code_simp
  have "plan_cycle_ABC ab_fsm (Py ''A'') (Py ''B'') (Py ''D'') False
          = Inr (plan_fail ''A/B/C not in FSM states'')"
    using plan_legs [OF b, of "Py ''A''" "Py ''B''" "Py ''D''" False] st by simp
  moreover have "plan_cycle_ABC scenario3_fsm (Py ''A'') (Py ''B'') (Py ''C'') False
          = Inr (plan_fail ''negative cycle exists in graph'')"
    using plan_legs [OF b3, of "Py ''A''" "Py ''B''" "Py ''C''" False] st d3 by simp
  moreover have "plan_cycle_ABC ab_fsm (Py ''A'') (Py ''B'') (Py ''C'') False
          = Inr (plan_fail ''B->C planning failed: unreachable'')"
    using plan_legs [OF b, of "Py ''A''" "Py ''B''" "Py ''C''" False] st d l1 l2 by auto
  ultimately show ?thesis by simp
qed

text \<open>
  The claim as stated fails: on the machine whose only edge is the loop C\<rightarrow>C of weight -1,
  the leg A\<rightarrow>B fails as unreachable, yet the plan's reason is the one of the pre-check and
  does not name the leg.
\<close>

theorem plan_legs_counterexample:
  "build_fsm [Py ''A'', Py ''B'', Py ''C''] (Py ''A'') [(Py ''C'', Py ''C'', PInt (- 1))]
     = Inr loop_fsm
   \<and> shortest_path (states loop_fsm) (edges_from_fsm loop_fsm) (Py ''A'') (Py ''B'')
       = Inr ([], PInf, ''unreachable'')
   \<and> plan_cycle_ABC loop_fsm (Py ''A'') (Py ''B'') (Py ''C'') False
       = Inr \<lparr>path = [], cost = PInf, ok = False, reason = ''negative cycle exists in graph''\<rparr>
   \<and> \<not> contains ''negative cycle exists in graph'' ''A->B''"
proof -
  have "shortest_path (states loop_fsm) (edges_from_fsm loop_fsm) (Py ''A'') (Py ''B'')
       = Inr ([], PInf, ''unreachable'')"
    by code_simp
  moreover have "plan_cycle_ABC loop_fsm (Py ''A'') (Py ''B'') (Py ''C'') False
       = Inr \<lparr>path = [], cost = PInf, ok = False, reason = ''negative cycle exists in graph''\<rparr>"
    by code_simp
  moreover have "\<not> contains ''negative cycle exists in graph'' ''A->B''"
    by code_simp
  ultimately show ?thesis using loop_build by simp
qed

subsection \<open>The degenerate cycle\<close>





subsection \<open>Failure reasons of a leg\<close>






section \<open>Dijkstra's algorithm against Bellman-Ford\<close>

lemma ext_less_le_trans: "ext_less a b \<Longrightarrow> ext_le b c \<Longrightarrow> ext_less a c"
  by (cases a; cases b; cases c) auto

lemma ext_le_add_nonneg: "0 \<le> w \<Longrightarrow> ext_le a (ext_add a w)"
  by (cases a) auto

lemma relax_out_fold: "relax_out es x d = fold (out_step x (d x)) es d"
  unfolding relax_out_def out_step_def [abs_def] ..

lemma out_step_cases:
  "out_step x a e d v = d v \<or>
   (e_u e = x \<and> e_v e = v \<and> out_step x a e d v = ext_add a (e_w e)
      \<and> ext_less (ext_add a (e_w e)) (d v))"
  by (simp add: out_step_def)

lemma out_step_le: "ext_le (out_step x a e d v) (d v)"
  using out_step_cases [of x a e d v] by (auto intro: ext_less_le)

lemma out_fold_cases:
  "fold (out_step x a) L d v = d v \<or>
   (\<exists>e \<in> set L. e_u e = x \<and> e_v e = v \<and> fold (out_step x a) L d v = ext_add a (e_w e)
      \<and> ext_less (ext_add a (e_w e)) (d v))"
proof (induction L arbitrary: d)
  case Nil
  then show ?case by simp
next
  case (Cons e L)
  let ?d1 = "out_step x a e d"
  let ?r = "fold (out_step x a) L ?d1 v"
  have r: "fold (out_step x a) (e # L) d v = ?r" by simp
  consider (same) "?r = ?d1 v"
    | (upd) e' where "e' \<in> set L" "e_u e' = x" "e_v e' = v" "?r = ext_add a (e_w e')"
        "ext_less (ext_add a (e_w e')) (?d1 v)"
    using Cons.IH [of ?d1] by blast
  then show ?case
  proof cases
    case same
    then show ?thesis
      unfolding r using out_step_cases [of x a e d v] by auto
  next
    case upd
    have "ext_less (ext_add a (e_w e')) (d v)"
      using ext_less_le_trans [OF upd(5) out_step_le] .
    then show ?thesis
      unfolding r using upd by auto
  qed
qed

lemma out_fold_le: "ext_le (fold (out_step x a) L d v) (d v)"
  using out_fold_cases [of x a L d v] by (auto intro: ext_less_le)

lemma out_fold_edge:
  "e \<in> set L \<Longrightarrow> e_u e = x \<Longrightarrow>
     ext_le (fold (out_step x a) L d (e_v e)) (ext_add a (e_w e))"
proof (induction L arbitrary: d)
  case Nil
  then show ?case by simp
next
  case (Cons e' L)
  show ?case
  proof (cases "e = e'")
    case True
    have "ext_le (fold (out_step x a) L (out_step x a e d) (e_v e)) (out_step x a e d (e_v e))"
      by (rule out_fold_le)
    moreover have "ext_le (out_step x a e d (e_v e)) (ext_add a (e_w e))"
      using Cons.prems(2) by (simp add: out_step_def ext_le_def)
    ultimately show ?thesis
      using True by (auto intro: ext_le_trans)
  next
    case False
    then have "e \<in> set L" using Cons.prems by simp
    then show ?thesis using Cons.IH [OF _ Cons.prems(2)] by simp
  qed
qed

lemma pick_min_mem: "pick_min d x ys \<in> set (x # ys)"
  by (induction ys arbitrary: x) auto

lemma pick_min_le_start: "ext_le (d (pick_min d x ys)) (d x)"
proof (induction ys arbitrary: x)
  case Nil
  then show ?case by simp
next
  case (Cons y ys)
  show ?case
  proof (cases "ext_less (d y) (d x)")
    case True
    then show ?thesis
      using Cons.IH [of y] by (auto intro: ext_le_trans ext_less_le)
  next
    case False
    then show ?thesis using Cons.IH [of x] by simp
  qed
qed

lemma pick_min_least: "y \<in> set (x # ys) \<Longrightarrow> ext_le (d (pick_min d x ys)) (d y)"
proof (induction ys arbitrary: x)
  case Nil
  then show ?case by simp
next
  case (Cons z ys)
  let ?x' = "if ext_less (d z) (d x) then z else x"
  have le_x: "ext_le (d ?x') (d x)" by (auto intro: ext_less_le)
  have le_z: "ext_le (d ?x') (d z)" by (auto simp: ext_le_def)
  consider "y = x" | "y = z" | "y \<in> set ys" using Cons.prems by auto
  then show ?case
  proof cases
    case 1
    then show ?thesis
      using ext_le_trans [OF pick_min_le_start [of d ?x' ys] le_x] by simp
  next
    case 2
    then show ?thesis
      using ext_le_trans [OF pick_min_le_start [of d ?x' ys] le_z] by simp
  next
    case 3
    then show ?thesis using Cons.IH [of ?x'] by simp
  qed
qed

lemma sound_out_fold:
  assumes sd: "sound D0 E d" and a: "d x = a" and sub: "set L \<subseteq> set E"
  shows "sound D0 E (fold (out_step x a) L d)"
  unfolding sound_def
proof (intro allI impI)
  fix b c
  assume bc: "fold (out_step x a) L d b = Fin c"
  consider (same) "fold (out_step x a) L d b = d b"
    | (upd) e where "e \<in> set L" "e_u e = x" "e_v e = b"
        "fold (out_step x a) L d b = ext_add a (e_w e)"
    using out_fold_cases [of x a L d b] by blast
  then show "reaches D0 E b c"
  proof cases
    case same
    then show ?thesis using sd bc unfolding sound_def by simp
  next
    case upd
    then have "ext_add a (e_w e) = Fin c" using bc by simp
    then obtain y where y: "a = Fin y" "c = y + e_w e"
      unfolding ext_add_Fin by blast
    then have "reaches D0 E (e_u e) y"
      using sd a upd(2) unfolding sound_def by blast
    moreover have "e \<in> set E" using upd(1) sub by blast
    ultimately show ?thesis
      using reaches_step [of D0 E e y] y(2) upd(3) by simp
  qed
qed

lemma dij_inv_step:
  assumes nn: "\<forall>e \<in> set es. 0 \<le> e_w e" and ew: "edges_within nodes es"
    and inv: "dij_inv nodes es s (q # qs) d"
  shows "dij_inv nodes es s (removeAll (pick_min d q qs) (q # qs))
           (relax_out es (pick_min d q qs) d)"
proof -
  let ?x = "pick_min d q qs"
  let ?Q = "q # qs"
  let ?d' = "relax_out es ?x d"
  have Qsub: "set ?Q \<subseteq> set nodes"
    and sd: "sound (src_init s) es d"
    and J1: "\<And>z y. z \<in> set nodes \<Longrightarrow> z \<notin> set ?Q \<Longrightarrow> y \<in> set ?Q \<Longrightarrow> ext_le (d z) (d y)"
    and J2: "\<And>e. e \<in> set es \<Longrightarrow> e_u e \<notin> set ?Q \<Longrightarrow> \<not> relaxable e d"
    using inv unfolding dij_inv_def by blast+
  have xQ: "?x \<in> set ?Q" by (rule pick_min_mem)
  have xmin: "\<And>y. y \<in> set ?Q \<Longrightarrow> ext_le (d ?x) (d y)"
    by (rule pick_min_least)
  have d': "?d' = fold (out_step ?x (d ?x)) es d" by (rule relax_out_fold)
  have cases': "?d' v = d v \<or>
      (\<exists>e \<in> set es. e_u e = ?x \<and> e_v e = v \<and> ?d' v = ext_add (d ?x) (e_w e)
         \<and> ext_less (ext_add (d ?x) (e_w e)) (d v))" for v
    unfolding d' by (rule out_fold_cases)
  have le: "ext_le (?d' v) (d v)" for v
    unfolding d' by (rule out_fold_le)
  have keep: "?d' v = d v" if "ext_le (d v) (d ?x)" for v
  proof (rule ccontr)
    assume "?d' v \<noteq> d v"
    then obtain e where e: "e \<in> set es" "ext_less (ext_add (d ?x) (e_w e)) (d v)"
      using cases' [of v] by blast
    have "ext_less (ext_add (d ?x) (e_w e)) (d ?x)"
      using ext_less_le_trans [OF e(2) that] .
    moreover have "ext_le (d ?x) (ext_add (d ?x) (e_w e))"
      using nn e(1) by (intro ext_le_add_nonneg) blast
    ultimately show False by (simp add: ext_le_def)
  qed
  have above: "ext_le (d ?x) (?d' y)" if "y \<in> set ?Q" for y
  proof -
    consider "?d' y = d y" | e where "e \<in> set es" "?d' y = ext_add (d ?x) (e_w e)"
      using cases' [of y] by blast
    then show ?thesis
    proof cases
      case 1
      then show ?thesis using xmin [OF that] by simp
    next
      case 2
      then show ?thesis using nn by (simp add: ext_le_add_nonneg)
    qed
  qed
  have keepx: "?d' ?x = d ?x" by (rule keep) simp
  have keepz: "?d' z = d z" if "z \<in> set nodes" "z \<notin> set ?Q" for z
    by (rule keep) (rule J1 [OF that xQ])
  have Q': "set (removeAll ?x ?Q) = set ?Q - {?x}" by (rule set_removeAll)
  have g1: "set (removeAll ?x ?Q) \<subseteq> set nodes"
    unfolding Q' using Qsub by blast
  have g2: "sound (src_init s) es ?d'"
    unfolding d' by (rule sound_out_fold [OF sd refl subset_refl])
  have g3: "\<forall>z \<in> set nodes - set (removeAll ?x ?Q). \<forall>y \<in> set (removeAll ?x ?Q).
              ext_le (?d' z) (?d' y)"
  proof (intro ballI)
    fix z y
    assume z: "z \<in> set nodes - set (removeAll ?x ?Q)" and y: "y \<in> set (removeAll ?x ?Q)"
    have yQ: "y \<in> set ?Q" using y unfolding Q' by blast
    show "ext_le (?d' z) (?d' y)"
    proof (cases "z = ?x")
      case True
      then show ?thesis using above [OF yQ] keepx by simp
    next
      case False
      then have zz: "z \<in> set nodes" "z \<notin> set ?Q" using z unfolding Q' by blast+
      have "ext_le (d z) (d ?x)" by (rule J1 [OF zz xQ])
      then have "ext_le (d z) (?d' y)" using above [OF yQ] by (rule ext_le_trans)
      then show ?thesis using keepz [OF zz] by simp
    qed
  qed
  have g4: "\<forall>e \<in> set es. e_u e \<notin> set (removeAll ?x ?Q) \<longrightarrow> \<not> relaxable e ?d'"
  proof (intro ballI impI)
    fix e
    assume e: "e \<in> set es" and u: "e_u e \<notin> set (removeAll ?x ?Q)"
    show "\<not> relaxable e ?d'"
    proof (cases "e_u e = ?x")
      case True
      have "ext_le (?d' (e_v e)) (ext_add (d ?x) (e_w e))"
        unfolding d' using e True by (rule out_fold_edge)
      then show ?thesis
        using True keepx by (simp add: relaxable_def ext_le_def)
    next
      case False
      then have nq: "e_u e \<notin> set ?Q" using u unfolding Q' by blast
      moreover have "e_u e \<in> set nodes" using ew e unfolding edges_within_def by blast
      ultimately have k: "?d' (e_u e) = d (e_u e)" using keepz by blast
      have "ext_le (d (e_v e)) (ext_add (d (e_u e)) (e_w e))"
        using J2 [OF e nq] by (simp add: relaxable_def ext_le_def)
      then have "ext_le (?d' (e_v e)) (ext_add (d (e_u e)) (e_w e))"
        using le [of "e_v e"] by (blast intro: ext_le_trans)
      then show ?thesis
        using k by (simp add: relaxable_def ext_le_def)
    qed
  qed
  show ?thesis
    unfolding dij_inv_def by (intro conjI g1 g2 g3 g4)
qed

lemma dijkstra_loop_inv:
  "\<forall>e \<in> set es. 0 \<le> e_w e \<Longrightarrow> edges_within nodes es \<Longrightarrow> dij_inv nodes es s Q d \<Longrightarrow>
     dij_inv nodes es s [] (dijkstra_loop es Q d)"
proof (induction es Q d rule: dijkstra_loop.induct)
  case (1 es d)
  then show ?case by simp
next
  case (2 es q qs d)
  have "dij_inv nodes es s (removeAll (pick_min d q qs) (q # qs))
          (relax_out es (pick_min d q qs) d)"
    using dij_inv_step [OF "2.prems"(1,2,3)] .
  then show ?case
    using "2.IH" "2.prems"(1,2) by simp
qed

lemma dijkstra_loop_le: "ext_le (dijkstra_loop es Q d v) (d v)"
proof (induction es Q d rule: dijkstra_loop.induct)
  case (1 es d)
  then show ?case by simp
next
  case (2 es q qs d)
  have "ext_le (relax_out es (pick_min d q qs) d v) (d v)"
    unfolding relax_out_fold by (rule out_fold_le)
  then show ?case
    using ext_le_trans [OF "2.IH"] by simp
qed

lemma dijkstra_run:
  assumes nn: "\<forall>e \<in> set es. 0 \<le> e_w e" and ew: "edges_within nodes es"
  shows "sound (src_init s) es (dijkstra nodes es s) \<and> feasible es (dijkstra nodes es s)"
proof -
  have "dij_inv nodes es s (remdups nodes) (src_init s)"
    using ew unfolding dij_inv_def edges_within_def
    by (auto simp: sound_init)
  then have "dij_inv nodes es s [] (dijkstra_loop es (remdups nodes) (src_init s))"
    by (rule dijkstra_loop_inv [OF nn ew])
  then show ?thesis
    unfolding dijkstra_def src_init_def [symmetric] dij_inv_def feasible_def by simp
qed

lemma least_unique:
  assumes nn: "\<forall>e \<in> set E. 0 \<le> e_w e"
    and s1: "sound (src_init s) E D1" and f2: "feasible E D2"
    and z2: "ext_le (D2 s) (Fin 0)"
  shows "ext_le (D2 v) (D1 v)"
proof (cases "D1 v")
  case PInf
  then show ?thesis by simp
next
  case (Fin c)
  obtain p where p: "walk E s p v" "cost_of p = c"
    using sound_src [OF s1 Fin] by blast
  obtain x where x: "D2 s = Fin x" "x \<le> 0"
    using z2 unfolding ext_le_Fin_right by blast
  have "ext_le (D2 v) (Fin (x + cost_of p))"
    using feasible_walk [OF f2 p(1) x(1)] .
  moreover have "ext_le (Fin (x + cost_of p)) (Fin c)" using x(2) p(2) by simp
  ultimately show ?thesis unfolding Fin by (rule ext_le_trans)
qed

text \<open>
  C3. On a node list, an edge list between its nodes with no negative weight, and a source
  among the nodes, \<open>bellman_ford\<close> returns, reports no negative cycle, and its distance dict
  has exactly the nodes as keys, each with the distance that Dijkstra's algorithm computes.
\<close>

theorem bellman_ford_dijkstra:
  assumes nn: "\<forall>e \<in> set es. 0 \<le> e_w e" and ew: "edges_within nodes es" and s: "s \<in> set nodes"
  shows "\<exists>distm predm. bellman_ford nodes es s = Inr (distm, predm, False)
           \<and> fmdom' distm = set nodes
           \<and> (\<forall>v \<in> set nodes. fmlookup distm v = Some (dijkstra nodes es s v))
           \<and> (\<forall>v. dget distm v = dijkstra nodes es s v)"
proof -
  have nc: "\<not> negative_cycle es" using nn by (rule nonneg_no_cycle)
  obtain distm predm where bf: "bellman_ford nodes es s = Inr (distm, predm, False)"
    "bf_inv0 es s distm predm" "feasible es (dget distm)" "fmdom' distm = set nodes"
    using bellman_ford_source [OF nc ew s] by blast
  let ?B = "dget distm" and ?D = "dijkstra nodes es s"
  have sB: "sound (src_init s) es ?B" and zB: "?B s = Fin 0"
    using bf(2) unfolding bf_inv0_def by blast+
  have sD: "sound (src_init s) es ?D" and fD: "feasible es ?D"
    using dijkstra_run [OF nn ew] by blast+
  have zD: "ext_le (?D s) (Fin 0)"
    unfolding dijkstra_def using dijkstra_loop_le [of es "remdups nodes" "(\<lambda>n. PInf)(s := Fin 0)" s]
    by simp
  have eq: "?B v = ?D v" for v
  proof (rule ext_le_antisym)
    show "ext_le (?B v) (?D v)"
      using least_unique [OF nn sD bf(3)] zB by simp
    show "ext_le (?D v) (?B v)"
      using least_unique [OF nn sB fD zD] .
  qed
  have "fmlookup distm v = Some (?D v)" if "v \<in> set nodes" for v
  proof -
    have "fmlookup distm v \<noteq> None"
      using that bf(4) fmdom'_notI [of distm v] by auto
    then obtain y where "fmlookup distm v = Some y" by blast
    then show ?thesis using eq [of v] by (simp add: dget_def)
  qed
  then have "\<forall>v \<in> set nodes. fmlookup distm v = Some (?D v)" by blast
  moreover have "\<forall>v. dget distm v = ?D v" using eq by blast
  ultimately show ?thesis
    using bf(1,4) by (intro exI [of _ distm] exI [of _ predm] conjI)
qed

theorem bellman_ford_dijkstra_witness:
  "dijkstra [Py ''A'', Py ''B'', Py ''C'']
     [\<lparr>e_u = Py ''A'', e_v = Py ''B'', e_w = 4\<rparr>, \<lparr>e_u = Py ''A'', e_v = Py ''C'', e_w = 1\<rparr>,
      \<lparr>e_u = Py ''C'', e_v = Py ''B'', e_w = 2\<rparr>] (Py ''A'') (Py ''B'') = Fin 3
   \<and> (\<exists>distm predm.
        bellman_ford [Py ''A'', Py ''B'', Py ''C'']
          [\<lparr>e_u = Py ''A'', e_v = Py ''B'', e_w = 4\<rparr>, \<lparr>e_u = Py ''A'', e_v = Py ''C'', e_w = 1\<rparr>,
           \<lparr>e_u = Py ''C'', e_v = Py ''B'', e_w = 2\<rparr>] (Py ''A'') = Inr (distm, predm, False)
        \<and> fmlookup distm (Py ''B'') = Some (Fin 3))"
proof -
  let ?ns = "[Py ''A'', Py ''B'', Py ''C'']"
  let ?es = "[\<lparr>e_u = Py ''A'', e_v = Py ''B'', e_w = 4\<rparr>, \<lparr>e_u = Py ''A'', e_v = Py ''C'', e_w = 1\<rparr>,
              \<lparr>e_u = Py ''C'', e_v = Py ''B'', e_w = 2\<rparr>]"
  have d: "dijkstra ?ns ?es (Py ''A'') (Py ''B'') = Fin 3"
    by code_simp
  have nn: "\<forall>e \<in> set ?es. 0 \<le> e_w e" by simp
  have ew: "edges_within ?ns ?es" by (simp add: edges_within_def)
  have s: "Py ''A'' \<in> set ?ns" by simp
  obtain distm predm where bf: "bellman_ford ?ns ?es (Py ''A'') = Inr (distm, predm, False)"
    "\<forall>v \<in> set ?ns. fmlookup distm v = Some (dijkstra ?ns ?es (Py ''A'') v)"
    using bellman_ford_dijkstra [OF nn ew s] by blast
  have "fmlookup distm (Py ''B'') = Some (Fin 3)"
    using bf(2) d by simp
  then show ?thesis using d bf(1) by blast
qed

end
